theory Spec2Isabelle
  imports Main "HOL-Library.Word"
begin

section \<open>Signal.h and Property.h: data model\<close>

text \<open>
  \<^verbatim>\<open>std::size_t\<close> is an unsigned 64-bit integer: \<^verbatim>\<open>++m_id\<close> wraps from
  \<open>2^64 - 1\<close> to \<open>0\<close>, and \<^verbatim>\<open>m_connection_id(-1)\<close> is \<open>2^64 - 1\<close>.
\<close>

type_synonym size_t = "64 word"

text \<open>The address of a \<^verbatim>\<open>Property<T>\<close> object (the value of \<^verbatim>\<open>this\<close>).\<close>

type_synonym addr = nat

text \<open>
  A \<^verbatim>\<open>Signal\<close> object is either a member of the \<^verbatim>\<open>Property\<close> at some address
  (\<^verbatim>\<open>m_on_change\<close>, \<^verbatim>\<open>m_prior_to_change\<close>) or stands on its own (such as
  \<^verbatim>\<open>Button::on_click\<close> in Test.cpp).
\<close>

datatype sigref = Free_signal nat | On_change addr | Prior_to_change addr

text \<open>
  A \<^verbatim>\<open>std::function<void(T)>\<close> held in a slot. \<open>Forward a\<close> is the closure
  \<^verbatim>\<open>[this](T const& value) { set(value); return true; }\<close> that \<^verbatim>\<open>connect_from\<close>
  creates, with \<^verbatim>\<open>this\<close> the property at \<open>a\<close>. \<open>User cb\<close> is a closure of the client;
  what it does is given by an interpretation \<open>run\<close>, a parameter of \<open>emit\<close>.
\<close>

datatype 'cb slot = Forward addr | User 'cb

text \<open>
  \<^verbatim>\<open>std::map<std::size_t, std::function<void(Args...)>>\<close>: the entries in ascending
  key order, every key at most once.
\<close>

type_synonym 'cb slots = "(size_t \<times> 'cb slot) list"

record 'cb Signal =
  m_slots :: "'cb slots"
  m_id :: size_t

record 'a Property =
  m_connection :: "addr option"
  m_connection_id :: size_t
  m_value :: 'a

text \<open>
  The objects of the program: every signal, every property (whose two member signals are in
  \<open>signals\<close> under \<open>On_change\<close> and \<open>Prior_to_change\<close>), and whatever the client's
  closures capture. The lifetime of objects is not modelled: every address holds an object.
\<close>

record ('a, 'cb, 'u) world =
  signals :: "sigref \<Rightarrow> 'cb Signal"
  properties :: "addr \<Rightarrow> 'a Property"
  client :: 'u

text \<open>
  An argument of type \<^verbatim>\<open>const T&\<close>: a reference to a temporary, or to the \<^verbatim>\<open>m_value\<close>
  of a property (\<^verbatim>\<open>set(source.get())\<close>, \<^verbatim>\<open>set(xi_other.m_value)\<close>); the latter is read
  each time the callee reads it.
\<close>

datatype 'a cref = Temp 'a | Value_of addr

fun deref :: "'a cref \<Rightarrow> ('a, 'cb, 'u) world \<Rightarrow> 'a" where
  "deref (Temp v) w = v"
| "deref (Value_of a) w = m_value (properties w a)"

text \<open>
  What a call can end in besides returning: the fuel of the model used up (the call has not
  returned within it), an iterator used after its node was erased (undefined behaviour in
  C++), or a closure of the client that does not return normally.
\<close>

datatype fault = Out_of_fuel | Invalid_iterator | Callback_fault

text \<open>
  The trace of what the dispatchers did: \<open>Emitted s x\<close> when \<^verbatim>\<open>emit(x)\<close> is entered on \<open>s\<close>,
  \<open>Called s k f x\<close> when the slot \<open>f\<close> under id \<open>k\<close> is invoked with \<open>x\<close>. The trace is
  kept beside the world, out of the reach of the client's closures: what a closure of the
  client does is one step from world to world, and leaves no events of its own.
\<close>

datatype ('a, 'cb) event = Emitted sigref 'a | Called sigref size_t "'cb slot" 'a

type_synonym ('a, 'cb, 'u) state = "('a, 'cb) event list \<times> ('a, 'cb, 'u) world"

type_synonym ('a, 'cb, 'u) run = "'cb \<Rightarrow> 'a \<Rightarrow> ('a, 'cb, 'u) world \<Rightarrow> fault + ('a, 'cb, 'u) world"

section \<open>std::map\<close>

text \<open>\<^verbatim>\<open>insert\<close> leaves the map as it is when the key is present.\<close>

fun map_insert :: "size_t \<Rightarrow> 'v \<Rightarrow> (size_t \<times> 'v) list \<Rightarrow> (size_t \<times> 'v) list" where
  "map_insert k v [] = [(k, v)]"
| "map_insert k v ((k', v') # m) =
     (if k < k' then (k, v) # (k', v') # m
      else if k = k' then (k', v') # m
      else (k', v') # map_insert k v m)"

fun map_erase :: "size_t \<Rightarrow> (size_t \<times> 'v) list \<Rightarrow> (size_t \<times> 'v) list" where
  "map_erase k [] = []"
| "map_erase k ((k', v') # m) = (if k = k' then m else (k', v') # map_erase k m)"

text \<open>An iterator is the key of its node, \<open>None\<close> for \<^verbatim>\<open>end()\<close>.\<close>

fun map_begin :: "(size_t \<times> 'v) list \<Rightarrow> size_t option" where
  "map_begin [] = None"
| "map_begin ((k, v) # m) = Some k"

text \<open>
  \<^verbatim>\<open>++it\<close> for an iterator at key \<open>k\<close>: the next node in key order. Insertions and
  erasures of other nodes leave the iterator valid; when the node of \<open>k\<close> itself has been
  erased the iterator is invalid and there is no result.
\<close>

fun map_next :: "size_t \<Rightarrow> (size_t \<times> 'v) list \<Rightarrow> size_t option option" where
  "map_next k [] = None"
| "map_next k ((k', v') # m) = (if k = k' then Some (map_begin m) else map_next k m)"

section \<open>Signal\<close>

text \<open>\<^verbatim>\<open>constexpr Signal() : m_id(0) {}\<close>\<close>

definition Signal_init :: "'cb Signal" where
  "Signal_init = \<lparr>m_slots = [], m_id = 0\<rparr>"

text \<open>\<^verbatim>\<open>m_slots.insert(std::make_pair(++m_id, slot)); return m_id;\<close>\<close>

definition connect :: "'cb slot \<Rightarrow> 'cb Signal \<Rightarrow> size_t \<times> 'cb Signal" where
  "connect slot sg =
     (let i = m_id sg + 1 in (i, \<lparr>m_slots = map_insert i slot (m_slots sg), m_id = i\<rparr>))"

text \<open>\<^verbatim>\<open>m_slots.erase(id);\<close>\<close>

definition disconnect :: "size_t \<Rightarrow> 'cb Signal \<Rightarrow> 'cb Signal" where
  "disconnect i sg = sg\<lparr>m_slots := map_erase i (m_slots sg)\<rparr>"

text \<open>\<^verbatim>\<open>m_slots.clear();\<close>\<close>

definition disconnect_all :: "'cb Signal \<Rightarrow> 'cb Signal" where
  "disconnect_all sg = sg\<lparr>m_slots := []\<rparr>"

text \<open>Writing to one member of the property at \<open>a\<close>, or to one signal.\<close>

definition store_value :: "addr \<Rightarrow> 'a \<Rightarrow> ('a, 'cb, 'u) world \<Rightarrow> ('a, 'cb, 'u) world" where
  "store_value a v w = w\<lparr>properties := (properties w)(a := (properties w a)\<lparr>m_value := v\<rparr>)\<rparr>"

definition store_signal :: "sigref \<Rightarrow> 'cb Signal \<Rightarrow> ('a, 'cb, 'u) world \<Rightarrow> ('a, 'cb, 'u) world" where
  "store_signal s sg w = w\<lparr>signals := (signals w)(s := sg)\<rparr>"

text \<open>
  \<^verbatim>\<open>emit\<close> is \<^verbatim>\<open>for (auto it : m_slots) it.second(p...);\<close>: it walks the map itself,
  not a copy of it. Each entry is copied before its slot is called, and the iterator is
  advanced in the map as the call left it. \<open>emit_loop\<close> is the loop from the iterator \<open>cur\<close>
  on; \<open>invoke\<close> calls one slot; \<open>set_value\<close> is \<^verbatim>\<open>Property::set\<close>, which the closure
  of \<^verbatim>\<open>connect_from\<close> calls. One unit of fuel is used for each slot called, so that a
  chain of calls that never ends (a cycle of bindings, a closure that connects itself again
  at each call) ends in \<open>Out_of_fuel\<close>.
\<close>

function (sequential) emit_loop :: "nat \<Rightarrow> ('a, 'cb, 'u) run \<Rightarrow> sigref \<Rightarrow> size_t option \<Rightarrow> 'a
      \<Rightarrow> ('a, 'cb, 'u) state \<Rightarrow> fault + ('a, 'cb, 'u) state"
  and invoke :: "nat \<Rightarrow> ('a, 'cb, 'u) run \<Rightarrow> 'cb slot \<Rightarrow> 'a
      \<Rightarrow> ('a, 'cb, 'u) state \<Rightarrow> fault + ('a, 'cb, 'u) state"
  and set_value :: "nat \<Rightarrow> ('a, 'cb, 'u) run \<Rightarrow> addr \<Rightarrow> 'a cref
      \<Rightarrow> ('a, 'cb, 'u) state \<Rightarrow> fault + ('a, 'cb, 'u) state"
  and emit :: "nat \<Rightarrow> ('a, 'cb, 'u) run \<Rightarrow> sigref \<Rightarrow> 'a
      \<Rightarrow> ('a, 'cb, 'u) state \<Rightarrow> fault + ('a, 'cb, 'u) state"
where
  "emit_loop n run s None x st = Inr st"
| "emit_loop 0 run s (Some k) x st = Inl Out_of_fuel"
| "emit_loop (Suc n) run s (Some k) x (tr, w) =
     (case map_of (m_slots (signals w s)) k of
        None \<Rightarrow> Inl Invalid_iterator
      | Some f \<Rightarrow>
          (case invoke n run f x (tr @ [Called s k f x], w) of
             Inl e \<Rightarrow> Inl e
           | Inr (tr', w') \<Rightarrow>
               (case map_next k (m_slots (signals w' s)) of
                  None \<Rightarrow> Inl Invalid_iterator
                | Some cur \<Rightarrow> emit_loop n run s cur x (tr', w'))))"
| "invoke n run (User cb) x (tr, w) =
     (case run cb x w of Inl e \<Rightarrow> Inl e | Inr w' \<Rightarrow> Inr (tr, w'))"
| "invoke n run (Forward a) x st = set_value n run a (Temp x) st"
| "set_value n run a value (tr, w) =
     (if deref value w = m_value (properties w a) then Inr (tr, w)
      else
        (case emit n run (Prior_to_change a) (m_value (properties w a)) (tr, w) of
           Inl e \<Rightarrow> Inl e
         | Inr (tr1, w1) \<Rightarrow>
             (let w2 = store_value a (deref value w1) w1
              in emit n run (On_change a) (m_value (properties w2 a)) (tr1, w2))))"
| "emit n run s x (tr, w) =
     emit_loop n run s (map_begin (m_slots (signals w s))) x (tr @ [Emitted s x], w)"
  by pat_completeness auto

termination
  by (relation "inv_image (less_than <*lex*> less_than)
        (\<lambda>c. case c of
           Inl (Inl (n, _)) \<Rightarrow> (n, 0::nat)
         | Inl (Inr (n, _)) \<Rightarrow> (n, 3)
         | Inr (Inl (n, _)) \<Rightarrow> (n, 2)
         | Inr (Inr (n, _)) \<Rightarrow> (n, 1))") auto

section \<open>Property\<close>

text \<open>
  \<^verbatim>\<open>explicit Property(const T& xi_val)\<close> for a new object at address \<open>q\<close>: its two
  signals are default-constructed, it has no connection.
\<close>

definition Property_new :: "addr \<Rightarrow> 'a \<Rightarrow> ('a, 'cb, 'u) world \<Rightarrow> ('a, 'cb, 'u) world" where
  "Property_new q v w =
     w\<lparr>signals := (signals w)(On_change q := Signal_init, Prior_to_change q := Signal_init),
       properties := (properties w)
         (q := \<lparr>m_connection = None, m_connection_id = - 1, m_value = v\<rparr>)\<rparr>"

text \<open>\<^verbatim>\<open>Property(const Property<T>& xi_other)\<close> for a new object at address \<open>q\<close>.\<close>

definition Property_copy :: "addr \<Rightarrow> addr \<Rightarrow> ('a, 'cb, 'u) world \<Rightarrow> ('a, 'cb, 'u) world" where
  "Property_copy q other w = Property_new q (m_value (properties w other)) w"

text \<open>\<^verbatim>\<open>Property& operator=(const Property& xi_other)\<close> on the object at \<open>q\<close>.\<close>

definition Property_assign :: "nat \<Rightarrow> ('a, 'cb, 'u) run \<Rightarrow> addr \<Rightarrow> addr
      \<Rightarrow> ('a, 'cb, 'u) state \<Rightarrow> fault + ('a, 'cb, 'u) state" where
  "Property_assign n run q other st = set_value n run q (Value_of other) st"

text \<open>\<^verbatim>\<open>get\<close>, \<^verbatim>\<open>set_with_no_emit\<close> and \<^verbatim>\<open>touch\<close>.\<close>

definition get :: "addr \<Rightarrow> ('a, 'cb, 'u) world \<Rightarrow> 'a" where
  "get a w = m_value (properties w a)"

definition set_with_no_emit :: "addr \<Rightarrow> 'a cref \<Rightarrow> ('a, 'cb, 'u) world \<Rightarrow> ('a, 'cb, 'u) world" where
  "set_with_no_emit a value w = store_value a (deref value w) w"

definition touch :: "nat \<Rightarrow> ('a, 'cb, 'u) run \<Rightarrow> addr
      \<Rightarrow> ('a, 'cb, 'u) state \<Rightarrow> fault + ('a, 'cb, 'u) state" where
  "touch n run a st =
     (case emit n run (Prior_to_change a) (m_value (properties (snd st) a)) st of
        Inl e \<Rightarrow> Inl e
      | Inr st1 \<Rightarrow> emit n run (On_change a) (m_value (properties (snd st1) a)) st1)"

text \<open>
  \<^verbatim>\<open>Property::disconnect\<close>: nothing when \<^verbatim>\<open>m_connection\<close> is null; otherwise
  \<^verbatim>\<open>m_connection->on_change().disconnect(m_connection_id)\<close>, then the id is set to \<open>-1\<close>
  and the connection to null.
\<close>

definition Property_disconnect :: "addr \<Rightarrow> ('a, 'cb, 'u) world \<Rightarrow> ('a, 'cb, 'u) world" where
  "Property_disconnect a w =
     (case m_connection (properties w a) of
        None \<Rightarrow> w
      | Some src \<Rightarrow>
          (let w1 = store_signal (On_change src)
                      (disconnect (m_connection_id (properties w a)) (signals w (On_change src))) w
           in w1\<lparr>properties := (properties w1)
                  (a := (properties w1 a)\<lparr>m_connection_id := - 1, m_connection := None\<rparr>)\<rparr>))"

text \<open>
  The part of \<^verbatim>\<open>connect_from\<close> before its last statement: the old binding is torn down,
  the source is recorded and the forwarding closure is connected to its \<^verbatim>\<open>on_change\<close>.
\<close>

definition bind_to :: "addr \<Rightarrow> addr \<Rightarrow> ('a, 'cb, 'u) world \<Rightarrow> ('a, 'cb, 'u) world" where
  "bind_to a src w =
     (let w1 = Property_disconnect a w;
          w2 = w1\<lparr>properties := (properties w1)(a := (properties w1 a)\<lparr>m_connection := Some src\<rparr>)\<rparr>;
          (i, sg) = connect (Forward a) (signals w2 (On_change src));
          w3 = store_signal (On_change src) sg w2
      in w3\<lparr>properties := (properties w3)(a := (properties w3 a)\<lparr>m_connection_id := i\<rparr>)\<rparr>)"

text \<open>\<^verbatim>\<open>connect_from\<close>: the above, then \<^verbatim>\<open>set(source.get())\<close>.\<close>

definition connect_from :: "nat \<Rightarrow> ('a, 'cb, 'u) run \<Rightarrow> addr \<Rightarrow> addr
      \<Rightarrow> ('a, 'cb, 'u) state \<Rightarrow> fault + ('a, 'cb, 'u) state" where
  "connect_from n run a src st =
     set_value n run a (Value_of src) (fst st, bind_to a src (snd st))"

text \<open>\<^verbatim>\<open>m_on_change.disconnect_all(); m_prior_to_change.disconnect_all();\<close>\<close>

definition disconnect_auditors :: "addr \<Rightarrow> ('a, 'cb, 'u) world \<Rightarrow> ('a, 'cb, 'u) world" where
  "disconnect_auditors a w =
     (let w1 = store_signal (On_change a) (disconnect_all (signals w (On_change a))) w
      in store_signal (Prior_to_change a) (disconnect_all (signals w1 (Prior_to_change a))) w1)"

section \<open>Notions used in the statements\<close>

text \<open>The subscribers of the signal \<open>s\<close> in the world \<open>w\<close>.\<close>

abbreviation slots_of :: "sigref \<Rightarrow> ('a, 'cb, 'u) world \<Rightarrow> 'cb slots" where
  "slots_of s w \<equiv> m_slots (signals w s)"

text \<open>The events of calling the entries of \<open>m\<close> in turn with \<open>x\<close>.\<close>

definition calls :: "sigref \<Rightarrow> 'a \<Rightarrow> 'cb slots \<Rightarrow> ('a, 'cb) event list" where
  "calls s x m = map (\<lambda>e. Called s (fst e) (snd e) x) m"

text \<open>The arguments with which \<^verbatim>\<open>emit\<close> was entered on \<open>s\<close>, in order.\<close>

fun fired :: "sigref \<Rightarrow> ('a, 'cb) event list \<Rightarrow> 'a list" where
  "fired s [] = []"
| "fired s (Emitted s' x # tr) = (if s' = s then x # fired s tr else fired s tr)"
| "fired s (Called s' k f x # tr) = fired s tr"

text \<open>The invariant of \<^verbatim>\<open>std::map\<close>: keys strictly ascending.\<close>

definition map_ok :: "(size_t \<times> 'v) list \<Rightarrow> bool" where
  "map_ok m = sorted_wrt (<) (map fst m)"

text \<open>
  A signal whose counter has not wrapped around: no id in the map is beyond \<^verbatim>\<open>m_id\<close>.
\<close>

definition sig_ok :: "'cb Signal \<Rightarrow> bool" where
  "sig_ok sg = (map_ok (m_slots sg) \<and> (\<forall>k \<in> fst ` set (m_slots sg). k \<le> m_id sg))"

text \<open>\<^verbatim>\<open>connect(c1); ...; connect(cn)\<close>, with the ids returned.\<close>

fun connect_list :: "'cb slot list \<Rightarrow> 'cb Signal \<Rightarrow> size_t list \<times> 'cb Signal" where
  "connect_list [] sg = ([], sg)"
| "connect_list (c # cs) sg =
     (let (i, sg1) = connect c sg; (is, sg2) = connect_list cs sg1 in (i # is, sg2))"

text \<open>
  Any sequence of calls of \<^verbatim>\<open>connect\<close>, \<^verbatim>\<open>disconnect\<close> and \<^verbatim>\<open>disconnect_all\<close> on
  one signal, with the ids that the calls of \<^verbatim>\<open>connect\<close> returned, in order.
\<close>

datatype 'cb op = Connect "'cb slot" | Disconnect size_t | Disconnect_all

fun run_ops :: "'cb op list \<Rightarrow> 'cb Signal \<Rightarrow> size_t list \<times> 'cb Signal" where
  "run_ops [] sg = ([], sg)"
| "run_ops (Connect c # ops) sg =
     (let (i, sg1) = connect c sg; (is, sg2) = run_ops ops sg1 in (i # is, sg2))"
| "run_ops (Disconnect i # ops) sg = run_ops ops (disconnect i sg)"
| "run_ops (Disconnect_all # ops) sg = run_ops ops (disconnect_all sg)"

fun connects :: "'cb op list \<Rightarrow> nat" where
  "connects [] = 0"
| "connects (Connect c # ops) = Suc (connects ops)"
| "connects (Disconnect i # ops) = connects ops"
| "connects (Disconnect_all # ops) = connects ops"

text \<open>
  A closure of the client that only observes: it returns, and leaves every signal and
  every property as it found them (it may change what it captured).
\<close>

definition observes :: "('a, 'cb, 'u) run \<Rightarrow> 'cb \<Rightarrow> bool" where
  "observes run cb =
     (\<forall>x w. \<exists>w'. run cb x w = Inr w' \<and> signals w' = signals w \<and> properties w' = properties w)"

text \<open>A map of slots that holds only observing closures of the client.\<close>

definition quiet :: "('a, 'cb, 'u) run \<Rightarrow> 'cb slots \<Rightarrow> bool" where
  "quiet run m = (\<forall>e \<in> set m. \<exists>cb. snd e = User cb \<and> observes run cb)"

text \<open>
  The binding of the property at \<open>a\<close> to the one at \<open>b\<close> is active: \<open>a\<close> records \<open>b\<close> as its
  source, and under the recorded id \<open>b\<close>'s \<^verbatim>\<open>on_change\<close> holds the forwarding closure.
\<close>

definition bound_to :: "addr \<Rightarrow> addr \<Rightarrow> ('a, 'cb, 'u) world \<Rightarrow> bool" where
  "bound_to a b w =
     (m_connection (properties w a) = Some b \<and>
      map_of (m_slots (signals w (On_change b))) (m_connection_id (properties w a))
        = Some (Forward a))"

text \<open>
  Calling closures of the client one after the other with \<open>x\<close>, each in the world the one
  before it left; \<open>closures_of\<close> are the closures of the client in a map, in key order.
\<close>

fun run_each :: "('a, 'cb, 'u) run \<Rightarrow> 'a \<Rightarrow> 'cb list \<Rightarrow> ('a, 'cb, 'u) world
      \<Rightarrow> fault + ('a, 'cb, 'u) world" where
  "run_each run x [] w = Inr w"
| "run_each run x (cb # cbs) w =
     (case run cb x w of Inl e \<Rightarrow> Inl e | Inr w' \<Rightarrow> run_each run x cbs w')"

fun closures_of :: "'cb slots \<Rightarrow> 'cb list" where
  "closures_of [] = []"
| "closures_of ((k, User cb) # m) = cb # closures_of m"
| "closures_of ((k, Forward a) # m) = closures_of m"

section \<open>The notifications as the spec words them\<close>






text \<open>
  \<open>n\<close> times: \<^verbatim>\<open>connect(c)\<close>, which returns the id \<open>i\<close>, then \<^verbatim>\<open>disconnect(i)\<close>; the id
  expected goes up by one each time.
\<close>

fun connect_disconnect :: "nat \<Rightarrow> size_t \<Rightarrow> 'cb slot \<Rightarrow> 'cb op list" where
  "connect_disconnect 0 i c = []"
| "connect_disconnect (Suc n) i c = Connect c # Disconnect i # connect_disconnect n (i + 1) c"

text \<open>
  What a call of \<^verbatim>\<open>set\<close> that changes the value of the property at \<open>a\<close> from \<open>old\<close> to
  \<open>new\<close> adds to the trace, when \<open>mp\<close> and \<open>mo\<close> are the subscribers of its
  \<^verbatim>\<open>prior_to_change\<close> and \<^verbatim>\<open>on_change\<close> and they are closures of the client.
\<close>

definition set_events :: "addr \<Rightarrow> 'a \<Rightarrow> 'a \<Rightarrow> 'cb slots \<Rightarrow> 'cb slots \<Rightarrow> ('a, 'cb) event list" where
  "set_events a old new mp mo =
     Emitted (Prior_to_change a) old # calls (Prior_to_change a) old mp
       @ Emitted (On_change a) new # calls (On_change a) new mo"

section \<open>Closures for the examples\<close>

text \<open>
  Four closures a client can write: one that prints its argument (as the closures of
  Test.cpp do), one that prints what \<^verbatim>\<open>get()\<close> of a property returns at that moment, one
  that connects a further closure to a signal, one that disconnects an id from a signal.
  What is printed is the client's state.
\<close>

datatype closure = Print | Show addr | Connect_to sigref closure | Disconnect_from sigref size_t

fun run_closure :: "(int, closure, int list) run" where
  "run_closure Print x w = Inr (w\<lparr>client := client w @ [x]\<rparr>)"
| "run_closure (Show a) x w = Inr (w\<lparr>client := client w @ [get a w]\<rparr>)"
| "run_closure (Connect_to s c) x w =
     Inr (store_signal s (snd (connect (User c) (signals w s))) w)"
| "run_closure (Disconnect_from s i) x w =
     Inr (store_signal s (disconnect i (signals w s)) w)"

text \<open>Every signal just constructed, every property constructed with value \<open>0\<close>.\<close>

definition world0 :: "(int, closure, int list) world" where
  "world0 = \<lparr>signals = (\<lambda>s. Signal_init),
            properties = (\<lambda>a. \<lparr>m_connection = None, m_connection_id = - 1, m_value = 0\<rparr>),
            client = []\<rparr>"

section \<open>The map and the loop of emit\<close>

lemma calls_simps [simp]:
  "calls s x [] = []"
  "calls s x (e # m) = Called s (fst e) (snd e) x # calls s x m"
  "calls s x (m @ m') = calls s x m @ calls s x m'"
  by (simp_all add: calls_def)

lemma map_of_mid:
  "distinct (map fst (xs @ (k, f) # ys)) \<Longrightarrow> map_of (xs @ (k, f) # ys) k = Some f"
  by (induction xs) auto

lemma map_next_mid:
  "k \<notin> fst ` set xs \<Longrightarrow> map_next k (xs @ (k, f) # ys) = Some (map_begin ys)"
  by (induction xs) auto

lemma map_next_None: "k \<notin> fst ` set m \<Longrightarrow> map_next k m = None"
  by (induction m) auto

lemma map_erase_absent: "k \<notin> fst ` set m \<Longrightarrow> map_erase k m = m"
  by (induction m) auto

lemma map_erase_filter:
  "distinct (map fst m) \<Longrightarrow> map_erase k m = filter (\<lambda>e. fst e \<noteq> k) m"
proof (induction m)
  case Nil
  then show ?case by simp
next
  case (Cons e m)
  obtain k' v' where e: "e = (k', v')" by (cases e)
  show ?case
  proof (cases "k = k'")
    case True
    with Cons.prems e have "k \<notin> fst ` set m" by auto
    then have "filter (\<lambda>e. fst e \<noteq> k) m = m" by (induction m) auto
    with True e show ?thesis by simp
  next
    case False
    with Cons e show ?thesis by auto
  qed
qed

lemma map_erase_append:
  "map_erase k (xs @ ys) = (if k \<in> fst ` set xs then map_erase k xs @ ys else xs @ map_erase k ys)"
  by (induction xs) force+

lemma map_insert_last:
  "\<forall>k' \<in> fst ` set m. k' < k \<Longrightarrow> map_insert k v m = m @ [(k, v)]"
  by (induction m) (auto simp: not_less)

lemma emit_loop_segment:
  assumes R_refl: "\<And>w. R w w"
    and R_trans: "\<And>w1 w2 w3. R w1 w2 \<Longrightarrow> R w2 w3 \<Longrightarrow> R w1 w3"
    and R_slots: "\<And>w w'. R w w' \<Longrightarrow> m_slots (signals w' s) = m_slots (signals w s)"
  shows "m_slots (signals w s) = xs @ ys @ zs \<Longrightarrow> distinct (map fst (xs @ ys @ zs)) \<Longrightarrow>
    \<forall>e \<in> set ys. \<exists>cb. snd e = User cb \<and> (\<forall>w. \<exists>w'. run cb x w = Inr w' \<and> R w w') \<Longrightarrow>
    length ys \<le> n \<Longrightarrow>
    \<exists>w'. R w w' \<and> emit_loop n run s (map_begin (ys @ zs)) x (tr, w)
        = emit_loop (n - length ys) run s (map_begin zs) x (tr @ calls s x ys, w')"
proof (induction ys arbitrary: xs n tr w)
  case Nil
  then show ?case using R_refl by auto
next
  case (Cons e ys)
  obtain k f where e: "e = (k, f)" by (cases e)
  from Cons.prems(3) e obtain cb where f: "f = User cb"
    and cb: "\<forall>w. \<exists>w'. run cb x w = Inr w' \<and> R w w'" by auto
  from cb obtain w1 where w1: "run cb x w = Inr w1" "R w w1" by blast
  from Cons.prems(4) obtain n' where n: "n = Suc n'" "length ys \<le> n'" by (cases n) auto
  have tab: "m_slots (signals w s) = xs @ (k, f) # ys @ zs" using Cons.prems(1) e by simp
  have dist: "distinct (map fst (xs @ (k, f) # ys @ zs))" using Cons.prems(2) e by simp
  have look: "map_of (m_slots (signals w s)) k = Some f"
    unfolding tab using dist by (rule map_of_mid)
  have tab1: "m_slots (signals w1 s) = (xs @ [(k, f)]) @ ys @ zs"
    using R_slots [OF w1(2)] tab by simp
  have kx: "k \<notin> fst ` set xs" using dist by auto
  have nxt: "map_next k (m_slots (signals w1 s)) = Some (map_begin (ys @ zs))"
    using map_next_mid [OF kx, of f "ys @ zs"] tab1 by simp
  have dist1: "distinct (map fst ((xs @ [(k, f)]) @ ys @ zs))" using dist by simp
  have ys: "\<forall>e \<in> set ys. \<exists>cb. snd e = User cb \<and> (\<forall>w. \<exists>w'. run cb x w = Inr w' \<and> R w w')"
    using Cons.prems(3) by simp
  from Cons.IH [OF tab1 dist1 ys n(2), of "tr @ [Called s k f x]"]
  obtain w' where w': "R w1 w'"
    "emit_loop n' run s (map_begin (ys @ zs)) x (tr @ [Called s k f x], w1)
      = emit_loop (n' - length ys) run s (map_begin zs) x ((tr @ [Called s k f x]) @ calls s x ys, w')"
    by blast
  have "emit_loop n run s (map_begin ((e # ys) @ zs)) x (tr, w)
      = emit_loop n' run s (map_begin (ys @ zs)) x (tr @ [Called s k f x], w1)"
    using look nxt w1(1) by (simp add: e n f)
  with w' have "emit_loop n run s (map_begin ((e # ys) @ zs)) x (tr, w)
      = emit_loop (n - length (e # ys)) run s (map_begin zs) x (tr @ calls s x (e # ys), w')"
    by (simp add: n e)
  moreover have "R w w'" using R_trans [OF w1(2) w'(1)] .
  ultimately show ?case by blast
qed

lemma map_ok_distinct: "map_ok m \<Longrightarrow> distinct (map fst m)"
  by (simp add: map_ok_def strict_sorted_iff)

lemma emit_stable:
  assumes R_refl: "\<And>w. R w w"
    and R_trans: "\<And>w1 w2 w3. R w1 w2 \<Longrightarrow> R w2 w3 \<Longrightarrow> R w1 w3"
    and R_slots: "\<And>w w'. R w w' \<Longrightarrow> m_slots (signals w' s) = m_slots (signals w s)"
    and ok: "map_ok (m_slots (signals w s))"
    and users: "\<forall>e \<in> set (m_slots (signals w s)).
        \<exists>cb. snd e = User cb \<and> (\<forall>w. \<exists>w'. run cb x w = Inr w' \<and> R w w')"
    and fuel: "length (m_slots (signals w s)) \<le> n"
  shows "\<exists>w'. R w w' \<and>
    emit n run s x (tr, w) = Inr (tr @ Emitted s x # calls s x (m_slots (signals w s)), w')"
proof -
  let ?m = "m_slots (signals w s)"
  have tab: "?m = [] @ ?m @ []" by simp
  have dist: "distinct (map fst ([] @ ?m @ []))" using map_ok_distinct [OF ok] by simp
  from emit_loop_segment [of R s w "[]" ?m "[]" run x n "tr @ [Emitted s x]",
      OF R_refl R_trans R_slots tab dist users fuel]
  show ?thesis by simp
qed

lemma unat_succ: "unat (i :: size_t) + 1 < 2 ^ 64 \<Longrightarrow> unat (i + 1) = unat i + 1"
  by (simp add: unat_word_ariths)

lemma map_ok_snoc:
  "map_ok m \<Longrightarrow> \<forall>k' \<in> fst ` set m. k' < k \<Longrightarrow> map_ok (m @ [(k, v)])"
  by (auto simp: map_ok_def sorted_wrt_append)

lemma connect_fresh:
  assumes "sig_ok sg" and "unat (m_id sg) + 1 < 2 ^ 64"
  shows "connect f sg = (m_id sg + 1, \<lparr>m_slots = m_slots sg @ [(m_id sg + 1, f)], m_id = m_id sg + 1\<rparr>)"
    and "sig_ok (snd (connect f sg))"
    and "m_id sg < m_id sg + 1"
proof -
  have u: "unat (m_id sg + 1) = unat (m_id sg) + 1" using assms(2) by (rule unat_succ)
  then show lt: "m_id sg < m_id sg + 1" by (simp add: word_less_nat_alt)
  have below: "\<forall>k' \<in> fst ` set (m_slots sg). k' < m_id sg + 1"
    using assms(1) lt unfolding sig_ok_def by (meson le_less_trans)
  then show c: "connect f sg = (m_id sg + 1, \<lparr>m_slots = m_slots sg @ [(m_id sg + 1, f)], m_id = m_id sg + 1\<rparr>)"
    by (simp add: connect_def Let_def map_insert_last)
  have "map_ok (m_slots sg @ [(m_id sg + 1, f)])"
    using assms(1) below by (simp add: sig_ok_def map_ok_snoc)
  then show "sig_ok (snd (connect f sg))"
    using below by (auto simp: c sig_ok_def)
qed

lemma connect_list_fresh:
  "sig_ok sg \<Longrightarrow> unat (m_id sg) + length cs < 2 ^ 64 \<Longrightarrow> connect_list cs sg = (ids, sg') \<Longrightarrow>
   length ids = length cs \<and> sorted_wrt (<) ids \<and> (\<forall>i \<in> set ids. m_id sg < i) \<and>
   m_slots sg' = m_slots sg @ zip ids cs \<and> sig_ok sg' \<and>
   unat (m_id sg') = unat (m_id sg) + length cs"
proof (induction cs arbitrary: sg ids)
  case Nil
  then show ?case by auto
next
  case (Cons c cs)
  let ?i = "m_id sg + 1"
  let ?sg1 = "\<lparr>m_slots = m_slots sg @ [(?i, c)], m_id = ?i\<rparr>"
  have one: "unat (m_id sg) + 1 < 2 ^ 64" using Cons.prems(2) by simp
  note cf = connect_fresh(1,2) [OF Cons.prems(1) one, of c]
  note lt = connect_fresh(3) [OF Cons.prems(1) one]
  obtain ids' where rest: "connect_list cs ?sg1 = (ids', sg')" and ids: "ids = ?i # ids'"
    using Cons.prems(3) cf(1) by (auto split: prod.splits)
  have ok1: "sig_ok ?sg1" using cf(1,2) by simp
  have u1: "unat (m_id ?sg1) = unat (m_id sg) + 1" using unat_succ [OF one] by simp
  have room: "unat (m_id ?sg1) + length cs < 2 ^ 64" using u1 Cons.prems(2) by simp
  from Cons.IH [OF ok1 room rest]
  have ih: "length ids' = length cs" "sorted_wrt (<) ids'" "\<forall>i \<in> set ids'. ?i < i"
    "m_slots sg' = (m_slots sg @ [(?i, c)]) @ zip ids' cs" "sig_ok sg'"
    "unat (m_id sg') = unat (m_id ?sg1) + length cs"
    by simp_all
  have "\<forall>i \<in> set ids. m_id sg < i"
    using ih(3) lt ids by (auto intro: less_trans)
  then show ?case using ih u1 ids by simp
qed

lemma map_erase_subset: "set (map_erase k m) \<subseteq> set m"
  by (induction m) (auto split: if_splits)

lemma map_erase_keys: "fst ` set (map_erase k m) \<subseteq> fst ` set m"
  by (rule image_mono) (rule map_erase_subset)

lemma map_ok_erase: "map_ok m \<Longrightarrow> map_ok (map_erase k m)"
  by (simp add: map_erase_filter map_ok_distinct) (simp add: map_ok_def sorted_wrt_map sorted_wrt_filter)

lemma map_insert_keys: "fst ` set (map_insert k v m) = insert k (fst ` set m)"
  apply (induction m)
   apply simp
  apply (auto split: if_splits)
     apply force+
  done

lemma map_ok_insert: "map_ok m \<Longrightarrow> map_ok (map_insert k v m)"
proof (induction m)
  case Nil
  then show ?case by (simp add: map_ok_def)
next
  case (Cons e m)
  obtain k' v' where e: "e = (k', v')" by (cases e)
  from Cons.prems have tl: "map_ok m" and hd: "\<forall>j \<in> fst ` set m. k' < j"
    by (auto simp: map_ok_def e)
  have "map_ok (map_insert k v m)" using Cons.IH tl .
  moreover have "\<not> k < k' \<Longrightarrow> k \<noteq> k' \<Longrightarrow> \<forall>j \<in> fst ` set (map_insert k v m). k' < j"
    using hd by (auto simp: map_insert_keys)
  ultimately show ?case using Cons.prems hd
    by (auto simp: e map_ok_def)
qed

lemma map_erase_gone: "map_ok m \<Longrightarrow> k \<notin> fst ` set (map_erase k m)"
  by (auto simp: map_erase_filter map_ok_distinct)

lemma connect_id: "fst (connect c sg) = m_id sg + 1" "m_id (snd (connect c sg)) = m_id sg + 1"
  by (simp_all add: connect_def Let_def)

lemma emit_loop_to_end:
  assumes R_refl: "\<And>w. R w w"
    and R_trans: "\<And>w1 w2 w3. R w1 w2 \<Longrightarrow> R w2 w3 \<Longrightarrow> R w1 w3"
    and R_slots: "\<And>w w'. R w w' \<Longrightarrow> m_slots (signals w' s) = m_slots (signals w s)"
    and tab: "m_slots (signals w s) = xs @ ys"
    and dist: "distinct (map fst (xs @ ys))"
    and users: "\<forall>e \<in> set ys. \<exists>cb. snd e = User cb \<and> (\<forall>w. \<exists>w'. run cb x w = Inr w' \<and> R w w')"
    and fuel: "length ys \<le> n"
  shows "\<exists>w'. R w w' \<and> emit_loop n run s (map_begin ys) x (tr, w) = Inr (tr @ calls s x ys, w')"
proof -
  have tab': "m_slots (signals w s) = xs @ ys @ []" using tab by simp
  have dist': "distinct (map fst (xs @ ys @ []))" using dist by simp
  from emit_loop_segment [of R s w xs ys "[]" run x n tr, OF R_refl R_trans R_slots tab' dist' users fuel]
  show ?thesis by simp
qed

lemma sig_ok_distinct: "sig_ok sg \<Longrightarrow> distinct (map fst (m_slots sg))"
  by (simp add: sig_ok_def map_ok_distinct)

lemma map_erase_around:
  assumes "distinct (map fst (pre @ (k, f) # post))" and "j \<noteq> k"
  shows "map_erase j (pre @ (k, f) # post) = map_erase j pre @ (k, f) # map_erase j post"
proof (cases "j \<in> fst ` set pre")
  case True
  with assms(1) have "j \<notin> fst ` set post" by auto
  then show ?thesis using True by (simp add: map_erase_append map_erase_absent)
next
  case False
  then show ?thesis using assms(2) by (simp add: map_erase_append map_erase_absent)
qed

section \<open>Property::set with closures of the client subscribed\<close>

lemma fired_append [simp]: "fired s (tr @ tr') = fired s tr @ fired s tr'"
  by (induction s tr rule: fired.induct) auto

lemma fired_calls [simp]: "fired s (calls s' x m) = []"
  by (induction m) auto

lemma set_value_users:
  assumes R_refl: "\<And>w. R w w"
    and R_trans: "\<And>w1 w2 w3. R w1 w2 \<Longrightarrow> R w2 w3 \<Longrightarrow> R w1 w3"
    and R_prior: "\<And>w w'. R w w' \<Longrightarrow> slots_of (Prior_to_change a) w' = slots_of (Prior_to_change a) w"
    and R_on: "\<And>w w'. R w w' \<Longrightarrow> slots_of (On_change a) w' = slots_of (On_change a) w"
    and ok_p: "map_ok (slots_of (Prior_to_change a) w)"
    and ok_o: "map_ok (slots_of (On_change a) w)"
    and users: "\<forall>e \<in> set (slots_of (Prior_to_change a) w @ slots_of (On_change a) w).
        \<exists>cb. snd e = User cb \<and> (\<forall>x w. \<exists>w'. run cb x w = Inr w' \<and> R w w')"
    and fuel_p: "length (slots_of (Prior_to_change a) w) \<le> n"
    and fuel_o: "length (slots_of (On_change a) w) \<le> n"
    and differs: "deref r w \<noteq> m_value (properties w a)"
  shows "\<exists>w1 w'. R w w1 \<and> R (store_value a (deref r w1) w1) w' \<and>
    set_value n run a r (tr, w) =
      Inr (tr @ Emitted (Prior_to_change a) (m_value (properties w a))
              # calls (Prior_to_change a) (m_value (properties w a)) (slots_of (Prior_to_change a) w)
              @ Emitted (On_change a) (deref r w1)
              # calls (On_change a) (deref r w1) (slots_of (On_change a) w), w')"
proof -
  let ?old = "m_value (properties w a)"
  let ?P = "Prior_to_change a" and ?O = "On_change a"
  have up: "\<forall>e \<in> set (slots_of ?P w). \<exists>cb. snd e = User cb \<and> (\<forall>w. \<exists>w'. run cb ?old w = Inr w' \<and> R w w')"
    using users by (simp add: ball_Un) blast
  have "\<exists>w1. R w w1 \<and> emit n run ?P ?old (tr, w) = Inr (tr @ Emitted ?P ?old # calls ?P ?old (slots_of ?P w), w1)"
    by (rule emit_stable [where R = R and run = run and x = ?old and s = ?P and w = w,
          OF R_refl R_trans R_prior ok_p up fuel_p])
  then obtain w1 where w1: "R w w1"
    "emit n run ?P ?old (tr, w) = Inr (tr @ Emitted ?P ?old # calls ?P ?old (slots_of ?P w), w1)"
    by blast
  let ?v = "deref r w1"
  let ?w2 = "store_value a ?v w1"
  have sig2: "signals ?w2 = signals w1" by (simp add: store_value_def)
  have val2: "m_value (properties ?w2 a) = ?v" by (simp add: store_value_def)
  have tab2: "slots_of ?O ?w2 = slots_of ?O w" using sig2 R_on [OF w1(1)] by simp
  have uo: "\<forall>e \<in> set (slots_of ?O ?w2). \<exists>cb. snd e = User cb \<and> (\<forall>w. \<exists>w'. run cb ?v w = Inr w' \<and> R w w')"
    using users tab2 by (simp add: ball_Un) blast
  have ok2: "map_ok (slots_of ?O ?w2)" using ok_o tab2 by simp
  have fuel2: "length (slots_of ?O ?w2) \<le> n" using fuel_o tab2 by simp
  have "\<exists>w'. R ?w2 w' \<and> emit n run ?O ?v (tr @ Emitted ?P ?old # calls ?P ?old (slots_of ?P w), ?w2)
      = Inr ((tr @ Emitted ?P ?old # calls ?P ?old (slots_of ?P w)) @ Emitted ?O ?v # calls ?O ?v (slots_of ?O ?w2), w')"
    by (rule emit_stable [where R = R and run = run and x = ?v and s = ?O and w = ?w2,
          OF R_refl R_trans R_on ok2 uo fuel2])
  then obtain w' where w': "R ?w2 w'"
    "emit n run ?O ?v (tr @ Emitted ?P ?old # calls ?P ?old (slots_of ?P w), ?w2)
      = Inr ((tr @ Emitted ?P ?old # calls ?P ?old (slots_of ?P w)) @ Emitted ?O ?v # calls ?O ?v (slots_of ?O w), w')"
    using tab2 by auto
  have "set_value n run a r (tr, w) =
      Inr (tr @ Emitted ?P ?old # calls ?P ?old (slots_of ?P w) @ Emitted ?O ?v # calls ?O ?v (slots_of ?O w), w')"
    using differs w1(2) w'(2) val2 by (simp add: Let_def del: emit.simps)
  with w1(1) w'(1) show ?thesis by blast
qed

lemma quiet_users:
  "quiet run m \<Longrightarrow> \<forall>e \<in> set m. \<exists>cb. snd e = User cb \<and>
     (\<forall>x w. \<exists>w'. run cb x w = Inr w' \<and> signals w' = signals w \<and> properties w' = properties w)"
  by (simp add: quiet_def observes_def)


lemma quiet_append [simp]: "quiet run (m @ m') \<longleftrightarrow> quiet run m \<and> quiet run m'"
  by (auto simp: quiet_def)

lemma fired_set_events [simp]:
  "fired s (set_events a old new mp mo) =
     (if s = Prior_to_change a then [old] else if s = On_change a then [new] else [])"
  by (auto simp: set_events_def)

lemma set_value_quiet:
  fixes w :: "('a, 'cb, 'u) world"
  assumes q_p: "quiet run (slots_of (Prior_to_change a) w)"
    and q_o: "quiet run (slots_of (On_change a) w)"
    and ok_p: "map_ok (slots_of (Prior_to_change a) w)"
    and ok_o: "map_ok (slots_of (On_change a) w)"
    and fuel_p: "length (slots_of (Prior_to_change a) w) \<le> n"
    and fuel_o: "length (slots_of (On_change a) w) \<le> n"
  shows "\<exists>w'. set_value n run a r (tr, w) =
      Inr (if deref r w = m_value (properties w a) then tr
           else tr @ set_events a (m_value (properties w a)) (deref r w)
                  (slots_of (Prior_to_change a) w) (slots_of (On_change a) w), w') \<and>
    signals w' = signals w \<and>
    properties w' = (properties w)(a := (properties w a)\<lparr>m_value := deref r w\<rparr>)"
proof (cases "deref r w = m_value (properties w a)")
  case True
  then have "(properties w)(a := (properties w a)\<lparr>m_value := deref r w\<rparr>) = properties w"
    by (simp add: fun_eq_iff)
  with True show ?thesis by simp
next
  case False
  let ?R = "\<lambda>w w'. signals w' = signals w \<and> properties w' = properties w"
  have users: "\<forall>e \<in> set (slots_of (Prior_to_change a) w @ slots_of (On_change a) w).
        \<exists>cb. snd e = User cb \<and> (\<forall>x w. \<exists>w'. run cb x w = Inr w' \<and> ?R w w')"
    using quiet_users [OF q_p] quiet_users [OF q_o] by (simp add: ball_Un)
  have Rr: "\<And>w. ?R w w" by simp
  have Rt: "\<And>w1 w2 w3. ?R w1 w2 \<Longrightarrow> ?R w2 w3 \<Longrightarrow> ?R w1 w3" by simp
  have Rp: "\<And>w w'. ?R w w' \<Longrightarrow> slots_of (Prior_to_change a) w' = slots_of (Prior_to_change a) w" by simp
  have Ro: "\<And>w w'. ?R w w' \<Longrightarrow> slots_of (On_change a) w' = slots_of (On_change a) w" by simp
  have "\<exists>(w1 :: ('a, 'cb, 'u) world) w'. ?R w w1 \<and> ?R (store_value a (deref r w1) w1) w' \<and>
    set_value n run a r (tr, w) =
      Inr (tr @ Emitted (Prior_to_change a) (m_value (properties w a))
              # calls (Prior_to_change a) (m_value (properties w a)) (slots_of (Prior_to_change a) w)
              @ Emitted (On_change a) (deref r w1)
              # calls (On_change a) (deref r w1) (slots_of (On_change a) w), w')"
    by (rule set_value_users [where R = ?R and run = run and a = a and w = w and r = r and tr = tr and n = n,
          OF Rr Rt Rp Ro ok_p ok_o users fuel_p fuel_o False])
  then obtain w1 :: "('a, 'cb, 'u) world" and w'
    where R1: "signals w1 = signals w" "properties w1 = properties w"
    and R2: "signals w' = signals (store_value a (deref r w1) w1)"
      "properties w' = properties (store_value a (deref r w1) w1)"
    and res: "set_value n run a r (tr, w) =
      Inr (tr @ Emitted (Prior_to_change a) (m_value (properties w a))
              # calls (Prior_to_change a) (m_value (properties w a)) (slots_of (Prior_to_change a) w)
              @ Emitted (On_change a) (deref r w1)
              # calls (On_change a) (deref r w1) (slots_of (On_change a) w), w')"
    by blast
  have d: "deref r w1 = deref r w" using R1(2) by (cases r) simp_all
  have "signals w' = signals w" using R2(1) R1(1) by (simp add: store_value_def)
  moreover have "properties w' = (properties w)(a := (properties w a)\<lparr>m_value := deref r w\<rparr>)"
    using R2(2) R1(2) d by (simp add: store_value_def)
  ultimately show ?thesis using res d False by (simp add: set_events_def)
qed

lemma emit_quiet:
  fixes w :: "('a, 'cb, 'u) world"
  assumes q: "quiet run (slots_of s w)" and ok: "map_ok (slots_of s w)"
    and fuel: "length (slots_of s w) \<le> n"
  shows "\<exists>w'. emit n run s x (tr, w) = Inr (tr @ Emitted s x # calls s x (slots_of s w), w') \<and>
    signals w' = signals w \<and> properties w' = properties w"
proof -
  let ?R = "\<lambda>(w :: ('a, 'cb, 'u) world) (w' :: ('a, 'cb, 'u) world).
      signals w' = signals w \<and> properties w' = properties w"
  have Rr: "\<And>w. ?R w w" by simp
  have Rt: "\<And>w1 w2 w3. ?R w1 w2 \<Longrightarrow> ?R w2 w3 \<Longrightarrow> ?R w1 w3" by simp
  have Rs: "\<And>w w'. ?R w w' \<Longrightarrow> slots_of s w' = slots_of s w" by simp
  have users: "\<forall>e \<in> set (slots_of s w). \<exists>cb. snd e = User cb \<and> (\<forall>w. \<exists>w'. run cb x w = Inr w' \<and> ?R w w')"
    using quiet_users [OF q] by blast
  have "\<exists>w'. ?R w w' \<and> emit n run s x (tr, w) = Inr (tr @ Emitted s x # calls s x (slots_of s w), w')"
    by (rule emit_stable [where R = ?R and run = run and x = x and s = s and w = w and tr = tr and n = n])
       (use ok users fuel in simp_all)
  then show ?thesis by blast
qed

lemma set_value_propagates:
  fixes w :: "('a, 'cb, 'u) world"
  assumes ab: "a \<noteq> b"
    and tab: "slots_of (On_change b) w = mb1 @ (i, Forward a) # mb2"
    and ok_b: "map_ok (slots_of (On_change b) w)"
    and q1: "quiet run mb1" and q2: "quiet run mb2"
    and q_bp: "quiet run (slots_of (Prior_to_change b) w)"
    and ok_bp: "map_ok (slots_of (Prior_to_change b) w)"
    and q_ap: "quiet run (slots_of (Prior_to_change a) w)"
    and ok_ap: "map_ok (slots_of (Prior_to_change a) w)"
    and q_ao: "quiet run (slots_of (On_change a) w)"
    and ok_ao: "map_ok (slots_of (On_change a) w)"
    and fuel: "length (slots_of (On_change b) w) + length (slots_of (Prior_to_change b) w)
        + length (slots_of (On_change a) w) + length (slots_of (Prior_to_change a) w) \<le> n"
    and differs: "deref r w \<noteq> m_value (properties w b)"
  shows "\<exists>tr' w'. set_value n run b r (tr, w) = Inr (tr', w') \<and> signals w' = signals w \<and>
    properties w' = (properties w)
      (b := (properties w b)\<lparr>m_value := deref r w\<rparr>, a := (properties w a)\<lparr>m_value := deref r w\<rparr>) \<and>
    fired (On_change a) tr' = fired (On_change a) tr
      @ (if m_value (properties w a) = deref r w then [] else [deref r w]) \<and>
    fired (Prior_to_change a) tr' = fired (Prior_to_change a) tr
      @ (if m_value (properties w a) = deref r w then [] else [m_value (properties w a)])"
proof -
  let ?R = "\<lambda>(w :: ('a, 'cb, 'u) world) (w' :: ('a, 'cb, 'u) world).
      signals w' = signals w \<and> properties w' = properties w"
  let ?Pb = "Prior_to_change b" and ?Ob = "On_change b"
  let ?Pa = "Prior_to_change a" and ?Oa = "On_change a"
  let ?old = "m_value (properties w b)"
  let ?v = "deref r w"
  let ?olda = "m_value (properties w a)"
  have Rr: "\<And>w. ?R w w" by simp
  have Rt: "\<And>w1 w2 w3. ?R w1 w2 \<Longrightarrow> ?R w2 w3 \<Longrightarrow> ?R w1 w3" by simp
  have Rs: "\<And>w w'. ?R w w' \<Longrightarrow> slots_of ?Ob w' = slots_of ?Ob w" by simp
  \<comment> \<open>\<^verbatim>\<open>m_prior_to_change.emit(m_value)\<close> on \<open>b\<close>\<close>
  have fuel_bp: "length (slots_of ?Pb w) \<le> n" using fuel by simp
  from emit_quiet [OF q_bp ok_bp fuel_bp, of ?old tr]
  obtain w1 where e1: "emit n run ?Pb ?old (tr, w) = Inr (tr @ Emitted ?Pb ?old # calls ?Pb ?old (slots_of ?Pb w), w1)"
    and s1: "signals w1 = signals w" and p1: "properties w1 = properties w"
    by blast
  let ?tr1 = "tr @ Emitted ?Pb ?old # calls ?Pb ?old (slots_of ?Pb w)"
  have d1: "deref r w1 = ?v" using p1 by (cases r) simp_all
  \<comment> \<open>\<^verbatim>\<open>m_value = value\<close>\<close>
  let ?w2 = "store_value b ?v w1"
  have s2: "signals ?w2 = signals w" using s1 by (simp add: store_value_def)
  have p2: "properties ?w2 = (properties w)(b := (properties w b)\<lparr>m_value := ?v\<rparr>)"
    using p1 by (simp add: store_value_def)
  have v2: "m_value (properties ?w2 b) = ?v" using p2 by simp
  \<comment> \<open>\<^verbatim>\<open>m_on_change.emit(m_value)\<close> on \<open>b\<close>: the closures before the forwarding one\<close>
  have dist: "distinct (map fst (mb1 @ (i, Forward a) # mb2))"
    using map_ok_distinct [OF ok_b] tab by simp
  have tab2: "slots_of ?Ob ?w2 = [] @ mb1 @ (i, Forward a) # mb2" using s2 tab by simp
  have dist2: "distinct (map fst ([] @ mb1 @ (i, Forward a) # mb2))" using dist by simp
  have u1: "\<forall>e \<in> set mb1. \<exists>cb. snd e = User cb \<and> (\<forall>w. \<exists>w'. run cb ?v w = Inr w' \<and> ?R w w')"
    using quiet_users [OF q1] by blast
  have len1: "length mb1 \<le> n" using fuel tab by simp
  have "\<exists>w3. ?R ?w2 w3 \<and>
      emit_loop n run ?Ob (map_begin (mb1 @ (i, Forward a) # mb2)) ?v (?tr1 @ [Emitted ?Ob ?v], ?w2)
      = emit_loop (n - length mb1) run ?Ob (map_begin ((i, Forward a) # mb2)) ?v
          ((?tr1 @ [Emitted ?Ob ?v]) @ calls ?Ob ?v mb1, w3)"
    by (rule emit_loop_segment [where R = ?R and run = run and x = ?v and s = ?Ob and w = ?w2
      and xs = "[]" and ys = mb1 and zs = "(i, Forward a) # mb2" and n = n
      and tr = "?tr1 @ [Emitted ?Ob ?v]"])
       (use tab2 dist2 u1 len1 in simp_all)
  then obtain w3 where R3: "?R ?w2 w3"
    and seg1: "emit_loop n run ?Ob (map_begin (mb1 @ (i, Forward a) # mb2)) ?v (?tr1 @ [Emitted ?Ob ?v], ?w2)
      = emit_loop (n - length mb1) run ?Ob (Some i) ?v
          ((?tr1 @ [Emitted ?Ob ?v]) @ calls ?Ob ?v mb1, w3)"
    by (simp only: map_begin.simps) blast
  have s3: "signals w3 = signals w" and p3: "properties w3 = properties ?w2"
    using R3 s2 by simp_all
  let ?tr2 = "((?tr1 @ [Emitted ?Ob ?v]) @ calls ?Ob ?v mb1) @ [Called ?Ob i (Forward a) ?v]"
  \<comment> \<open>the forwarding closure: \<^verbatim>\<open>set(value)\<close> on \<open>a\<close>\<close>
  obtain n1 where n1: "n - length mb1 = Suc n1"
    "length mb2 \<le> n1" "length (slots_of ?Pa w) \<le> n1" "length (slots_of ?Oa w) \<le> n1"
    using fuel tab by (cases "n - length mb1") auto
  have look: "map_of (slots_of ?Ob w3) i = Some (Forward a)"
    using map_of_mid [OF dist] s3 tab by simp
  have olda: "m_value (properties w3 a) = ?olda" using p3 p2 ab by simp
  from set_value_quiet [where run = run and a = a and w = w3 and n = n1 and r = "Temp ?v" and tr = ?tr2]
    q_ap q_ao ok_ap ok_ao n1 s3
  obtain w4 where sv: "set_value n1 run a (Temp ?v) (?tr2, w3) =
      Inr (if ?v = ?olda then ?tr2
           else ?tr2 @ set_events a ?olda ?v (slots_of ?Pa w) (slots_of ?Oa w), w4)"
    and s4: "signals w4 = signals w"
    and p4: "properties w4 = (properties w3)(a := (properties w3 a)\<lparr>m_value := ?v\<rparr>)"
    using olda by auto
  let ?tr3 = "if ?v = ?olda then ?tr2
           else ?tr2 @ set_events a ?olda ?v (slots_of ?Pa w) (slots_of ?Oa w)"
  have ki: "i \<notin> fst ` set mb1" using dist by auto
  have nxt: "map_next i (slots_of ?Ob w4) = Some (map_begin mb2)"
    using map_next_mid [OF ki, of "Forward a" mb2] s4 tab by simp
  have step: "emit_loop (Suc n1) run ?Ob (Some i) ?v
        ((?tr1 @ [Emitted ?Ob ?v]) @ calls ?Ob ?v mb1, w3)
      = emit_loop n1 run ?Ob (map_begin mb2) ?v (?tr3, w4)"
    using look sv nxt by (simp del: set_value.simps)
  \<comment> \<open>the closures after it\<close>
  have tab4: "slots_of ?Ob w4 = (mb1 @ [(i, Forward a)]) @ mb2" using s4 tab by simp
  have dist4: "distinct (map fst ((mb1 @ [(i, Forward a)]) @ mb2))" using dist by simp
  have u2: "\<forall>e \<in> set mb2. \<exists>cb. snd e = User cb \<and> (\<forall>w. \<exists>w'. run cb ?v w = Inr w' \<and> ?R w w')"
    using quiet_users [OF q2] by blast
  have "\<exists>w5. ?R w4 w5 \<and> emit_loop n1 run ?Ob (map_begin mb2) ?v (?tr3, w4)
      = Inr (?tr3 @ calls ?Ob ?v mb2, w5)"
    by (rule emit_loop_to_end [where R = ?R and run = run and x = ?v and s = ?Ob and w = w4
      and xs = "mb1 @ [(i, Forward a)]" and ys = mb2 and n = n1 and tr = ?tr3])
       (use tab4 dist4 u2 n1(2) in simp_all)
  then obtain w5 where s5: "signals w5 = signals w4" and p5: "properties w5 = properties w4"
    and seg2: "emit_loop n1 run ?Ob (map_begin mb2) ?v (?tr3, w4)
      = Inr (?tr3 @ calls ?Ob ?v mb2, w5)"
    by blast
  have "emit n run ?Ob ?v (?tr1, ?w2)
      = emit_loop n run ?Ob (map_begin (mb1 @ (i, Forward a) # mb2)) ?v (?tr1 @ [Emitted ?Ob ?v], ?w2)"
    using tab2 by simp
  also have "\<dots> = emit_loop (Suc n1) run ?Ob (Some i) ?v
          ((?tr1 @ [Emitted ?Ob ?v]) @ calls ?Ob ?v mb1, w3)"
    using seg1 n1(1) by simp
  also have "\<dots> = emit_loop n1 run ?Ob (map_begin mb2) ?v (?tr3, w4)" by (rule step)
  also have "\<dots> = Inr (?tr3 @ calls ?Ob ?v mb2, w5)" by (rule seg2)
  finally have on_b: "emit n run ?Ob ?v (?tr1, ?w2) = Inr (?tr3 @ calls ?Ob ?v mb2, w5)" .
  have res: "set_value n run b r (tr, w) = Inr (?tr3 @ calls ?Ob ?v mb2, w5)"
    using differs e1 d1 v2 on_b by (simp add: Let_def del: emit.simps)
  have props: "properties w5 = (properties w)
      (b := (properties w b)\<lparr>m_value := ?v\<rparr>, a := (properties w a)\<lparr>m_value := ?v\<rparr>)"
    using p5 p4 p3 p2 ab by (simp add: fun_eq_iff)
  have ne: "?Oa \<noteq> ?Ob" "?Oa \<noteq> ?Pb" "?Pa \<noteq> ?Pb" "?Pa \<noteq> ?Ob" using ab by simp_all
  have f_on: "fired ?Oa (?tr3 @ calls ?Ob ?v mb2)
      = fired ?Oa tr @ (if ?olda = ?v then [] else [?v])"
    using ne by auto
  have f_pr: "fired ?Pa (?tr3 @ calls ?Ob ?v mb2)
      = fired ?Pa tr @ (if ?olda = ?v then [] else [?olda])"
    using ne by auto
  have sig: "signals w5 = signals w" using s5 s4 by simp
  show ?thesis
    by (rule exI [of _ "?tr3 @ calls ?Ob ?v mb2"], rule exI [of _ w5])
       (intro conjI res sig props f_on f_pr)
qed

lemma observes_Print: "observes run_closure Print"
  by (simp add: observes_def)

section \<open>Property::disconnect and the first part of connect_from\<close>


lemma Property_disconnect_m_id [simp]:
  "m_id (signals (Property_disconnect a w) s) = m_id (signals w s)"
  by (auto simp: Property_disconnect_def store_signal_def disconnect_def Let_def split: option.splits)

lemma Property_disconnect_value [simp]:
  "m_value (properties (Property_disconnect a w) c) = m_value (properties w c)"
  by (auto simp: Property_disconnect_def store_signal_def Let_def split: option.splits)










lemma quiet_Nil [simp]: "quiet run []"
  by (simp add: quiet_def)

section \<open>C1: a closure connected during emit\<close>

text \<open>
  C1 as stated fails: \<^verbatim>\<open>emit\<close> walks \<^verbatim>\<open>m_slots\<close> itself and takes no snapshot. On a
  signal whose only closure connects a printing closure to the same signal, one \<^verbatim>\<open>emit(7)\<close>
  calls the first closure under id \<open>1\<close> and then, in the same call, the closure it has just
  connected, under id \<open>2\<close>, which prints \<open>7\<close>.
\<close>

theorem emit_calls_new_connection_counterexample:
  "emit 2 run_closure (Free_signal 0) 7
     ([], store_signal (Free_signal 0)
            (snd (connect (User (Connect_to (Free_signal 0) Print)) Signal_init)) world0)
   = Inr ([Emitted (Free_signal 0) 7,
           Called (Free_signal 0) 1 (User (Connect_to (Free_signal 0) Print)) 7,
           Called (Free_signal 0) 2 (User Print) 7],
          (store_signal (Free_signal 0)
            \<lparr>m_slots = [(1, User (Connect_to (Free_signal 0) Print)), (2, User Print)], m_id = 2\<rparr>
            world0)\<lparr>client := [7]\<rparr>)"
  by (simp add: eval_nat_numeral connect_def store_signal_def world0_def Signal_init_def)

text \<open>
  C1, as amended. On a signal whose counter has not wrapped, let the closure under id \<open>k\<close>
  connect a closure \<open>g\<close> to the same signal when it is called, and let \<open>g\<close> and the other
  closures in the map leave the signal alone. Then \<^verbatim>\<open>emit(x)\<close> calls every entry of the
  map in the order of the ids and, last in that same call, \<open>g\<close> under the id that
  \<^verbatim>\<open>connect\<close> gave it.
\<close>

theorem emit_reaches_new_connection:
  assumes tab: "m_slots (signals w s) = pre @ (k, User cb) # post"
    and ok: "sig_ok (signals w s)"
    and room: "unat (m_id (signals w s)) + 1 < 2 ^ 64"
    and cb: "\<forall>w. \<exists>w'. run cb x w = Inr w' \<and> signals w' s = snd (connect (User g) (signals w s))"
    and new: "\<forall>w. \<exists>w'. run g x w = Inr w' \<and> signals w' s = signals w s"
    and others: "\<forall>e \<in> set (pre @ post). \<exists>c. snd e = User c \<and>
        (\<forall>w. \<exists>w'. run c x w = Inr w' \<and> signals w' s = signals w s)"
    and fuel: "length (m_slots (signals w s)) < n"
  shows "\<exists>w'. emit n run s x (tr, w) =
        Inr (tr @ Emitted s x # calls s x (m_slots (signals w s))
                @ [Called s (m_id (signals w s) + 1) (User g) x], w')
      \<and> signals w' s = snd (connect (User g) (signals w s))"
proof -
  let ?R = "\<lambda>w w'. signals w' s = signals w s"
  let ?sg = "signals w s"
  let ?m = "pre @ (k, User cb) # post"
  let ?i = "m_id ?sg + 1"
  have dist: "distinct (map fst ?m)" using sig_ok_distinct [OF ok] tab by simp
  have user_pre: "\<forall>e \<in> set pre. \<exists>c. snd e = User c \<and> (\<forall>w. \<exists>w'. run c x w = Inr w' \<and> ?R w w')"
    using others by simp
  have len: "length pre + Suc (length post) < n" using fuel tab by simp
  \<comment> \<open>the entries before \<open>k\<close>\<close>
  have "\<exists>w1. ?R w w1 \<and> emit_loop n run s (map_begin (pre @ (k, User cb) # post)) x (tr @ [Emitted s x], w)
      = emit_loop (n - length pre) run s (map_begin ((k, User cb) # post)) x
          ((tr @ [Emitted s x]) @ calls s x pre, w1)"
    by (rule emit_loop_segment [where R = ?R and xs = "[]"])
       (use tab dist user_pre len in simp_all)
  then obtain w1 where w1: "signals w1 s = ?sg"
    and seg1: "emit n run s x (tr, w)
      = emit_loop (n - length pre) run s (Some k) x (tr @ Emitted s x # calls s x pre, w1)"
    using tab by auto
  \<comment> \<open>the entry \<open>k\<close>, whose closure connects \<open>g\<close>\<close>
  from cb obtain w2 where w2: "run cb x w1 = Inr w2"
    "signals w2 s = snd (connect (User g) (signals w1 s))" by blast
  have conn: "connect (User g) ?sg = (?i, \<lparr>m_slots = m_slots ?sg @ [(?i, User g)], m_id = ?i\<rparr>)"
    using connect_fresh(1) [OF ok room] .
  have ok2: "sig_ok (snd (connect (User g) ?sg))" using connect_fresh(2) [OF ok room] .
  have tab2: "m_slots (signals w2 s) = (pre @ [(k, User cb)]) @ (post @ [(?i, User g)])"
    using w2(2) w1 conn tab by simp
  have dist2: "distinct (map fst ((pre @ [(k, User cb)]) @ (post @ [(?i, User g)])))"
    using sig_ok_distinct [OF ok2] conn tab by simp
  obtain n1 where n1: "n - length pre = Suc n1" "length (post @ [(?i, User g)]) \<le> n1"
    using len by (cases "n - length pre") auto
  have look: "map_of (m_slots (signals w1 s)) k = Some (User cb)"
    using map_of_mid [OF dist] w1 tab by simp
  have kpre: "k \<notin> fst ` set pre" using dist by auto
  have nxt: "map_next k (m_slots (signals w2 s)) = Some (map_begin (post @ [(?i, User g)]))"
    using map_next_mid [OF kpre, of "User cb" "post @ [(?i, User g)]"] tab2 by simp
  have step: "emit_loop (Suc n1) run s (Some k) x (tr @ Emitted s x # calls s x pre, w1)
      = emit_loop n1 run s (map_begin (post @ [(?i, User g)])) x
          ((tr @ Emitted s x # calls s x pre) @ [Called s k (User cb) x], w2)"
    using look w2(1) nxt by simp
  \<comment> \<open>the entries after \<open>k\<close>, the new one among them\<close>
  have user_post: "\<forall>e \<in> set (post @ [(?i, User g)]).
      \<exists>c. snd e = User c \<and> (\<forall>w. \<exists>w'. run c x w = Inr w' \<and> ?R w w')"
    using others new by auto
  have "\<exists>w'. ?R w2 w' \<and> emit_loop n1 run s (map_begin (post @ [(?i, User g)])) x
          ((tr @ Emitted s x # calls s x pre) @ [Called s k (User cb) x], w2)
      = Inr (((tr @ Emitted s x # calls s x pre) @ [Called s k (User cb) x])
             @ calls s x (post @ [(?i, User g)]), w')"
    by (rule emit_loop_to_end [where R = ?R and xs = "pre @ [(k, User cb)]"])
       (use tab2 dist2 user_post n1 in simp_all)
  then obtain w' where w': "signals w' s = signals w2 s"
    and seg2: "emit_loop n1 run s (map_begin (post @ [(?i, User g)])) x
          ((tr @ Emitted s x # calls s x pre) @ [Called s k (User cb) x], w2)
      = Inr (tr @ Emitted s x # calls s x ?m @ [Called s ?i (User g) x], w')"
    by auto
  have "emit n run s x (tr, w) = Inr (tr @ Emitted s x # calls s x ?m @ [Called s ?i (User g) x], w')"
    using seg1 n1(1) step seg2 by simp
  moreover have "signals w' s = snd (connect (User g) ?sg)" using w' w2(2) w1 by simp
  ultimately show ?thesis using tab by auto
qed

theorem emit_reaches_new_connection_witness:
  "\<exists>w'. emit 2 run_closure (Free_signal 0) 7
     ([], store_signal (Free_signal 0)
            \<lparr>m_slots = [(1, User (Connect_to (Free_signal 0) Print))], m_id = 1\<rparr> world0)
   = Inr ([Emitted (Free_signal 0) 7,
           Called (Free_signal 0) 1 (User (Connect_to (Free_signal 0) Print)) 7,
           Called (Free_signal 0) 2 (User Print) 7], w')"
proof -
  let ?s = "Free_signal 0"
  let ?sg = "\<lparr>m_slots = [(1, User (Connect_to ?s Print))], m_id = 1\<rparr> :: closure Signal"
  let ?w = "store_signal ?s ?sg world0"
  have tab: "m_slots (signals ?w ?s) = [] @ (1, User (Connect_to ?s Print)) # []"
    by (simp add: store_signal_def)
  have ok: "sig_ok (signals ?w ?s)" by (simp add: store_signal_def sig_ok_def map_ok_def)
  have room: "unat (m_id (signals ?w ?s)) + 1 < 2 ^ 64" by (simp add: store_signal_def)
  have cb: "\<forall>w. \<exists>w'. run_closure (Connect_to ?s Print) 7 w = Inr w' \<and>
      signals w' ?s = snd (connect (User Print) (signals w ?s))"
    by (simp add: store_signal_def)
  have new: "\<forall>w. \<exists>w'. run_closure Print 7 w = Inr w' \<and> signals w' ?s = signals w ?s"
    by simp
  have others: "\<forall>e \<in> set ([] @ []). \<exists>c. snd e = User c \<and>
        (\<forall>w. \<exists>w'. run_closure c 7 w = Inr w' \<and> signals w' ?s = signals w ?s)"
    by simp
  have fuel: "length (m_slots (signals ?w ?s)) < 2" by (simp add: store_signal_def)
  from emit_reaches_new_connection [where run = run_closure and x = 7 and tr = "[]" and s = ?s
      and w = ?w and g = Print, OF tab ok room cb new others fuel]
  obtain w' where "emit 2 run_closure ?s 7 ([], ?w) =
      Inr ([] @ Emitted ?s 7 # calls ?s 7 (m_slots (signals ?w ?s))
             @ [Called ?s (m_id (signals ?w ?s) + 1) (User Print) 7], w')"
    by blast
  then have "emit 2 run_closure ?s 7 ([], ?w) =
      Inr ([Emitted ?s 7, Called ?s 1 (User (Connect_to ?s Print)) 7,
            Called ?s 2 (User Print) 7], w')"
    by (simp add: store_signal_def calls_def del: emit.simps)
  then show ?thesis by blast
qed

section \<open>C2: a closure that disconnects during emit\<close>

text \<open>
  C2 as stated fails where a closure disconnects itself: \<^verbatim>\<open>m_slots.erase(id)\<close> destroys
  the node the iterator of the loop is at, and the loop then advances that iterator. The
  second subscriber is never reached.
\<close>

theorem emit_self_disconnect_counterexample:
  "emit 2 run_closure (Free_signal 0) 7
     ([], store_signal (Free_signal 0)
            \<lparr>m_slots = [(1, User (Disconnect_from (Free_signal 0) 1)), (2, User Print)], m_id = 2\<rparr>
            world0)
   = Inl Invalid_iterator"
  by (simp add: eval_nat_numeral disconnect_def store_signal_def world0_def)

text \<open>
  C2, as amended. Let the closure under id \<open>k\<close>, when called during \<^verbatim>\<open>emit(x)\<close>,
  disconnect an id \<open>j\<close> other than its own from the same signal, and let the other closures
  in the map leave the signal alone. Then \<^verbatim>\<open>emit\<close> returns: it has called the entries
  up to \<open>k\<close>, then the entries after \<open>k\<close> except the one under \<open>j\<close>, which is skipped, in
  the order of the ids.
\<close>

theorem emit_skips_disconnected_other:
  assumes tab: "m_slots (signals w s) = pre @ (k, User cb) # post"
    and ok: "map_ok (m_slots (signals w s))"
    and other: "j \<noteq> k"
    and cb: "\<forall>w. \<exists>w'. run cb x w = Inr w' \<and> signals w' s = disconnect j (signals w s)"
    and others: "\<forall>e \<in> set (pre @ post). \<exists>c. snd e = User c \<and>
        (\<forall>w. \<exists>w'. run c x w = Inr w' \<and> signals w' s = signals w s)"
    and fuel: "length (m_slots (signals w s)) \<le> n"
  shows "\<exists>w'. emit n run s x (tr, w) =
        Inr (tr @ Emitted s x # calls s x (pre @ (k, User cb) # map_erase j post), w')
      \<and> signals w' s = disconnect j (signals w s)"
proof -
  let ?R = "\<lambda>w w'. signals w' s = signals w s"
  let ?sg = "signals w s"
  let ?m = "pre @ (k, User cb) # post"
  let ?post = "map_erase j post"
  have dist: "distinct (map fst ?m)" using map_ok_distinct [OF ok] tab by simp
  have user_pre: "\<forall>e \<in> set pre. \<exists>c. snd e = User c \<and> (\<forall>w. \<exists>w'. run c x w = Inr w' \<and> ?R w w')"
    using others by simp
  have len: "length pre + Suc (length post) \<le> n" using fuel tab by simp
  have "\<exists>w1. ?R w w1 \<and> emit_loop n run s (map_begin (pre @ (k, User cb) # post)) x (tr @ [Emitted s x], w)
      = emit_loop (n - length pre) run s (map_begin ((k, User cb) # post)) x
          ((tr @ [Emitted s x]) @ calls s x pre, w1)"
    by (rule emit_loop_segment [where R = ?R and xs = "[]"])
       (use tab dist user_pre len in simp_all)
  then obtain w1 where w1: "signals w1 s = ?sg"
    and seg1: "emit n run s x (tr, w)
      = emit_loop (n - length pre) run s (Some k) x (tr @ Emitted s x # calls s x pre, w1)"
    using tab by auto
  from cb obtain w2 where w2: "run cb x w1 = Inr w2"
    "signals w2 s = disconnect j (signals w1 s)" by blast
  have tab2: "m_slots (signals w2 s) = (map_erase j pre @ [(k, User cb)]) @ ?post"
    using w2(2) w1 tab map_erase_around [OF dist other] by (simp add: disconnect_def)
  have "map_ok (m_slots (signals w2 s))"
    using w2(2) w1 ok by (simp add: disconnect_def map_ok_erase)
  then have dist2: "distinct (map fst ((map_erase j pre @ [(k, User cb)]) @ ?post))"
    using tab2 map_ok_distinct by metis
  have "length ?post \<le> length post"
    by (induction post) (auto split: if_splits)
  then obtain n1 where n1: "n - length pre = Suc n1" "length ?post \<le> n1"
    using len by (cases "n - length pre") auto
  have look: "map_of (m_slots (signals w1 s)) k = Some (User cb)"
    using map_of_mid [OF dist] w1 tab by simp
  have "k \<notin> fst ` set pre" using dist by auto
  then have kpre: "k \<notin> fst ` set (map_erase j pre)" using map_erase_keys [of j pre] by blast
  have nxt: "map_next k (m_slots (signals w2 s)) = Some (map_begin ?post)"
    using map_next_mid [OF kpre, of "User cb" ?post] tab2 by simp
  have step: "emit_loop (Suc n1) run s (Some k) x (tr @ Emitted s x # calls s x pre, w1)
      = emit_loop n1 run s (map_begin ?post) x
          ((tr @ Emitted s x # calls s x pre) @ [Called s k (User cb) x], w2)"
    using look w2(1) nxt by simp
  have user_post: "\<forall>e \<in> set ?post.
      \<exists>c. snd e = User c \<and> (\<forall>w. \<exists>w'. run c x w = Inr w' \<and> ?R w w')"
    using others map_erase_subset [of j post] by auto
  have "\<exists>w'. ?R w2 w' \<and> emit_loop n1 run s (map_begin ?post) x
          ((tr @ Emitted s x # calls s x pre) @ [Called s k (User cb) x], w2)
      = Inr (((tr @ Emitted s x # calls s x pre) @ [Called s k (User cb) x]) @ calls s x ?post, w')"
    by (rule emit_loop_to_end [where R = ?R and xs = "map_erase j pre @ [(k, User cb)]"])
       (use tab2 dist2 user_post n1 in simp_all)
  then obtain w' where w': "signals w' s = signals w2 s"
    and seg2: "emit_loop n1 run s (map_begin ?post) x
          ((tr @ Emitted s x # calls s x pre) @ [Called s k (User cb) x], w2)
      = Inr (tr @ Emitted s x # calls s x (pre @ (k, User cb) # ?post), w')"
    by auto
  have "emit n run s x (tr, w) = Inr (tr @ Emitted s x # calls s x (pre @ (k, User cb) # ?post), w')"
    using seg1 n1(1) step seg2 by simp
  moreover have "signals w' s = disconnect j ?sg" using w' w2(2) w1 by simp
  ultimately show ?thesis by auto
qed

theorem emit_skips_disconnected_other_witness:
  "\<exists>w'. emit 4 run_closure (Free_signal 0) 7
     ([], store_signal (Free_signal 0)
            \<lparr>m_slots = [(1, User Print), (2, User (Disconnect_from (Free_signal 0) 3)),
                        (3, User Print), (4, User Print)], m_id = 4\<rparr> world0)
   = Inr ([Emitted (Free_signal 0) 7,
           Called (Free_signal 0) 1 (User Print) 7,
           Called (Free_signal 0) 2 (User (Disconnect_from (Free_signal 0) 3)) 7,
           Called (Free_signal 0) 4 (User Print) 7], w')"
proof -
  let ?s = "Free_signal 0"
  let ?sg = "\<lparr>m_slots = [(1, User Print), (2, User (Disconnect_from ?s 3)),
                        (3, User Print), (4, User Print)], m_id = 4\<rparr> :: closure Signal"
  let ?w = "store_signal ?s ?sg world0"
  have tab: "m_slots (signals ?w ?s) =
      [(1, User Print)] @ (2, User (Disconnect_from ?s 3)) # [(3, User Print), (4, User Print)]"
    by (simp add: store_signal_def)
  have ok: "map_ok (m_slots (signals ?w ?s))" by (simp add: store_signal_def map_ok_def)
  have other: "(3 :: size_t) \<noteq> 2" by simp
  have cb: "\<forall>w. \<exists>w'. run_closure (Disconnect_from ?s 3) 7 w = Inr w' \<and>
      signals w' ?s = disconnect 3 (signals w ?s)"
    by (simp add: store_signal_def)
  have others: "\<forall>e \<in> set ([(1, User Print)] @ [(3, User Print), (4, User Print)]).
      \<exists>c. snd e = User c \<and>
        (\<forall>w. \<exists>w'. run_closure c 7 w = Inr w' \<and> signals w' ?s = signals w ?s)"
    by simp
  have fuel: "length (m_slots (signals ?w ?s)) \<le> 4" by (simp add: store_signal_def)
  from emit_skips_disconnected_other [where run = run_closure and x = 7 and tr = "[]" and s = ?s
      and w = ?w, OF tab ok other cb others fuel]
  obtain w' where "emit 4 run_closure ?s 7 ([], ?w) =
      Inr ([] @ Emitted ?s 7 # calls ?s 7 ([(1, User Print)] @ (2, User (Disconnect_from ?s 3))
             # map_erase 3 [(3, User Print), (4, User Print)]), w')"
    by blast
  then have "emit 4 run_closure ?s 7 ([], ?w) =
      Inr ([Emitted ?s 7, Called ?s 1 (User Print) 7,
            Called ?s 2 (User (Disconnect_from ?s 3)) 7, Called ?s 4 (User Print) 7], w')"
    by (simp add: calls_def del: emit.simps)
  then show ?thesis by blast
qed

section \<open>C3: the value of a bound property and of its source\<close>

text \<open>
  C3 as stated fails: \<^verbatim>\<open>set_with_no_emit\<close> is an operation of the public interface,
  and on the source it changes the value without calling the forwarding closure. After
  \<^verbatim>\<open>a.connect_from(b)\<close> on two new properties and \<^verbatim>\<open>b.set_with_no_emit(7)\<close>, the binding
  is still active, \<^verbatim>\<open>a.get()\<close> is \<open>0\<close> and \<^verbatim>\<open>b.get()\<close> is \<open>7\<close>.
\<close>

theorem silent_write_breaks_binding_counterexample:
  "connect_from 0 run_closure 0 1 ([], world0) = Inr ([], bind_to 0 1 world0) \<and>
   bound_to 0 1 (set_with_no_emit 1 (Temp 7) (bind_to 0 1 world0)) \<and>
   get 0 (set_with_no_emit 1 (Temp 7) (bind_to 0 1 world0)) = 0 \<and>
   get 1 (set_with_no_emit 1 (Temp 7) (bind_to 0 1 world0)) = 7"
  by (simp add: connect_from_def bind_to_def Property_disconnect_def world0_def connect_def
        Signal_init_def store_signal_def set_with_no_emit_def store_value_def bound_to_def get_def
        Let_def)

text \<open>
  C3, as amended. While the binding of \<open>a\<close> to \<open>b\<close> is active and the two values are
  equal, every \<^verbatim>\<open>b.set(v)\<close> keeps them equal: it returns with the binding active, the
  value of \<open>b\<close> the one passed and the value of \<open>a\<close> the same (the other subscribers of
  the two properties being observing closures of the client).
\<close>

theorem binding_invariant_under_source_set:
  fixes w :: "('a, 'cb, 'u) world"
  assumes ab: "a \<noteq> b"
    and bound: "bound_to a b w"
    and eq: "get a w = get b w"
    and ok_bo: "map_ok (slots_of (On_change b) w)"
    and q_bo: "quiet run (map_erase (m_connection_id (properties w a)) (slots_of (On_change b) w))"
    and q_bp: "quiet run (slots_of (Prior_to_change b) w)"
    and ok_bp: "map_ok (slots_of (Prior_to_change b) w)"
    and q_ap: "quiet run (slots_of (Prior_to_change a) w)"
    and ok_ap: "map_ok (slots_of (Prior_to_change a) w)"
    and q_ao: "quiet run (slots_of (On_change a) w)"
    and ok_ao: "map_ok (slots_of (On_change a) w)"
    and fuel: "length (slots_of (On_change b) w) + length (slots_of (Prior_to_change b) w)
        + length (slots_of (On_change a) w) + length (slots_of (Prior_to_change a) w) \<le> n"
  shows "\<exists>tr' w'. set_value n run b r (tr, w) = Inr (tr', w') \<and>
    bound_to a b w' \<and> get b w' = deref r w \<and> get a w' = get b w'"
proof (cases "deref r w = m_value (properties w b)")
  case True
  then have "set_value n run b r (tr, w) = Inr (tr, w)" by simp
  moreover have "get b w = deref r w" using True by (simp add: get_def)
  ultimately show ?thesis using bound eq by blast
next
  case False
  let ?Ob = "On_change b"
  let ?i = "m_connection_id (properties w a)"
  have look: "map_of (slots_of ?Ob w) ?i = Some (Forward a)"
    and conn: "m_connection (properties w a) = Some b"
    using bound by (simp_all add: bound_to_def)
  from look have "(?i, Forward a) \<in> set (slots_of ?Ob w)" by (rule map_of_SomeD)
  then obtain mb1 mb2 where tab: "slots_of ?Ob w = mb1 @ (?i, Forward a) # mb2"
    by (auto simp: in_set_conv_decomp)
  have dist: "distinct (map fst (mb1 @ (?i, Forward a) # mb2))"
    using map_ok_distinct [OF ok_bo] tab by simp
  then have "?i \<notin> fst ` set mb1" by auto
  then have "map_erase ?i (slots_of ?Ob w) = mb1 @ mb2"
    using tab by (simp add: map_erase_append)
  with q_bo have q1: "quiet run mb1" and q2: "quiet run mb2" by simp_all
  have "\<exists>tr' w'. set_value n run b r (tr, w) = Inr (tr', w') \<and> signals w' = signals w \<and>
    properties w' = (properties w)
      (b := (properties w b)\<lparr>m_value := deref r w\<rparr>, a := (properties w a)\<lparr>m_value := deref r w\<rparr>) \<and>
    fired (On_change a) tr' = fired (On_change a) tr
      @ (if m_value (properties w a) = deref r w then [] else [deref r w]) \<and>
    fired (Prior_to_change a) tr' = fired (Prior_to_change a) tr
      @ (if m_value (properties w a) = deref r w then [] else [m_value (properties w a)])"
    by (rule set_value_propagates [OF ab tab ok_bo q1 q2 q_bp ok_bp q_ap ok_ap q_ao ok_ao fuel False])
  then obtain tr' w' where sv: "set_value n run b r (tr, w) = Inr (tr', w')"
    and s': "signals w' = signals w"
    and p': "properties w' = (properties w)
      (b := (properties w b)\<lparr>m_value := deref r w\<rparr>, a := (properties w a)\<lparr>m_value := deref r w\<rparr>)"
    by blast
  have b': "bound_to a b w'" using look conn s' p' by (simp add: bound_to_def)
  have vb: "get b w' = deref r w" using p' by (simp add: get_def)
  have va: "get a w' = get b w'" using p' by (simp add: get_def)
  show ?thesis
    by (rule exI [of _ tr'], rule exI [of _ w']) (intro conjI sv b' vb va)
qed

theorem binding_invariant_under_source_set_witness:
  "bound_to 0 1 (bind_to 0 1 world0) \<and>
   get 0 (bind_to 0 1 world0) = get 1 (bind_to 0 1 world0) \<and>
   (\<exists>tr' w'. set_value 3 run_closure 1 (Temp 4) ([], bind_to 0 1 world0) = Inr (tr', w') \<and>
      bound_to 0 1 w' \<and> get 1 w' = 4 \<and> get 0 w' = get 1 w')"
proof -
  let ?w = "bind_to 0 1 world0"
  have sigs: "signals ?w = (\<lambda>s. Signal_init)(On_change 1 := \<lparr>m_slots = [(1, Forward 0)], m_id = 1\<rparr>)"
    by (simp add: bind_to_def Property_disconnect_def world0_def connect_def
        Signal_init_def store_signal_def Let_def)
  have props: "properties ?w = (properties world0)
      (0 := \<lparr>m_connection = Some 1, m_connection_id = 1, m_value = 0\<rparr>)"
    by (simp add: bind_to_def Property_disconnect_def world0_def connect_def
        Signal_init_def store_signal_def Let_def)
  have facts: "(0 :: nat) \<noteq> 1" "bound_to 0 1 ?w" "get 0 ?w = get 1 ?w"
    "map_ok (slots_of (On_change 1) ?w)"
    "quiet run_closure (map_erase (m_connection_id (properties ?w 0)) (slots_of (On_change 1) ?w))"
    "quiet run_closure (slots_of (Prior_to_change 1) ?w)" "map_ok (slots_of (Prior_to_change 1) ?w)"
    "quiet run_closure (slots_of (Prior_to_change 0) ?w)" "map_ok (slots_of (Prior_to_change 0) ?w)"
    "quiet run_closure (slots_of (On_change 0) ?w)" "map_ok (slots_of (On_change 0) ?w)"
    "length (slots_of (On_change 1) ?w) + length (slots_of (Prior_to_change 1) ?w)
        + length (slots_of (On_change 0) ?w) + length (slots_of (Prior_to_change 0) ?w) \<le> 3"
    unfolding bound_to_def get_def sigs props
    by (simp_all add: world0_def Signal_init_def map_ok_def)
  from binding_invariant_under_source_set [where run = run_closure and tr = "[]" and r = "Temp 4",
      OF facts]
  obtain tr' w' where "set_value 3 run_closure 1 (Temp 4) ([], ?w) = Inr (tr', w')"
    "bound_to 0 1 w'" "get 1 w' = 4" "get 0 w' = get 1 w'"
    by auto
  with facts(2,3) show ?thesis by blast
qed

section \<open>C4: a write of the current value\<close>

text \<open>
  C4. When the value passed to \<^verbatim>\<open>set\<close> equals the current value of the property,
  \<^verbatim>\<open>set\<close> returns at once, whatever the fuel and whatever is subscribed: the trace is
  the one before the call, so neither dispatcher was entered and no slot was called, and the
  world, hence \<^verbatim>\<open>get()\<close>, is unchanged.
\<close>

theorem set_value_equal_is_silent:
  "deref value w = m_value (properties w p) \<Longrightarrow> set_value n run p value (tr, w) = Inr (tr, w)"
  by simp

theorem set_value_equal_is_silent_witness:
  "deref (Temp 0) world0 = m_value (properties world0 3) \<and>
   set_value 0 run_closure 3 (Temp 0) ([], world0) = Inr ([], world0)"
  using set_value_equal_is_silent [of "Temp 0" world0 3 0 run_closure "[]"]
  by (simp add: world0_def)

section \<open>C5: a write of a different value\<close>













section \<open>C6: emit calls every subscriber once, in the order of the ids\<close>

lemma closures_of_append [simp]: "closures_of (m @ m') = closures_of m @ closures_of m'"
  by (induction m rule: closures_of.induct) simp_all

lemma closures_of_zip_User:
  "length ids = length cs \<Longrightarrow> closures_of (zip ids (map User cs)) = cs"
  by (induction ids cs rule: list_induct2) simp_all

lemma emit_loop_runs:
  "slots_of s w = xs @ ys \<Longrightarrow> distinct (map fst (xs @ ys)) \<Longrightarrow>
   \<forall>e \<in> set ys. \<exists>cb. snd e = User cb \<and>
      (\<forall>w. \<exists>w'. run cb x w = Inr w' \<and> signals w' s = signals w s) \<Longrightarrow>
   length ys \<le> n \<Longrightarrow>
   \<exists>w'. emit_loop n run s (map_begin ys) x (tr, w) = Inr (tr @ calls s x ys, w') \<and>
     signals w' s = signals w s \<and> run_each run x (closures_of ys) w = Inr w'"
proof (induction ys arbitrary: xs n tr w)
  case Nil
  then show ?case by simp
next
  case (Cons e ys)
  obtain k f where e: "e = (k, f)" by (cases e)
  from Cons.prems(3) e obtain cb where f: "f = User cb"
    and cb: "\<forall>w. \<exists>w'. run cb x w = Inr w' \<and> signals w' s = signals w s" by auto
  from cb obtain w1 where w1: "run cb x w = Inr w1" "signals w1 s = signals w s" by blast
  from Cons.prems(4) obtain n' where n: "n = Suc n'" "length ys \<le> n'" by (cases n) auto
  have tab: "slots_of s w = xs @ (k, f) # ys" using Cons.prems(1) e by simp
  have dist: "distinct (map fst (xs @ (k, f) # ys))" using Cons.prems(2) e by simp
  have look: "map_of (slots_of s w) k = Some f"
    unfolding tab using dist by (rule map_of_mid)
  have tab1: "slots_of s w1 = (xs @ [(k, f)]) @ ys" using w1(2) tab by simp
  have kx: "k \<notin> fst ` set xs" using dist by auto
  have nxt: "map_next k (slots_of s w1) = Some (map_begin ys)"
    using map_next_mid [OF kx, of f ys] tab1 by simp
  have dist1: "distinct (map fst ((xs @ [(k, f)]) @ ys))" using dist by simp
  have ys: "\<forall>e \<in> set ys. \<exists>cb. snd e = User cb \<and>
      (\<forall>w. \<exists>w'. run cb x w = Inr w' \<and> signals w' s = signals w s)"
    using Cons.prems(3) by simp
  from Cons.IH [OF tab1 dist1 ys n(2), of "tr @ [Called s k f x]"]
  obtain w' where w': "emit_loop n' run s (map_begin ys) x (tr @ [Called s k f x], w1)
      = Inr ((tr @ [Called s k f x]) @ calls s x ys, w')"
    "signals w' s = signals w1 s" "run_each run x (closures_of ys) w1 = Inr w'"
    by blast
  have "emit_loop n run s (map_begin (e # ys)) x (tr, w) = Inr (tr @ calls s x (e # ys), w')"
    using look nxt w1(1) w'(1) by (simp add: e n f)
  moreover have "signals w' s = signals w s" using w'(2) w1(2) by simp
  moreover have "run_each run x (closures_of (e # ys)) w = Inr w'"
    using w1(1) w'(3) by (simp add: e f)
  ultimately show ?case by blast
qed

text \<open>
  C6, as amended. Take a signal whose counter has not wrapped, holding closures of the
  client, and connect \<open>c1 .. cn\<close> to it with no disconnect in between, the counter having
  room for \<open>n\<close> more ids. Let no closure in the map change this signal, and let each of
  them return. Then the ids returned are strictly ascending, and \<^verbatim>\<open>emit(x)\<close> returns
  after calling the entries that were there and then \<open>c1 .. cn\<close>, each exactly once, with
  \<open>x\<close>, in the order of their ids: the world it returns is the one that running these
  closures with \<open>x\<close>, one after the other in that order, makes of the world it was
  called in.
\<close>

theorem emit_calls_each_in_order:
  assumes ok: "sig_ok sg"
    and room: "unat (m_id sg) + length cs < 2 ^ 64"
    and conn: "connect_list (map User cs) sg = (ids, sg')"
    and here: "signals w s = sg'"
    and stable: "\<forall>e \<in> set (m_slots sg'). \<exists>cb. snd e = User cb \<and>
        (\<forall>w. \<exists>w'. run cb x w = Inr w' \<and> signals w' s = signals w s)"
    and fuel: "length (m_slots sg') \<le> n"
  shows "length ids = length cs \<and> sorted_wrt (<) ids \<and>
    (\<exists>w'. emit n run s x (tr, w) =
        Inr (tr @ Emitted s x # calls s x (m_slots sg)
                @ map (\<lambda>(i, c). Called s i (User c) x) (zip ids cs), w')
      \<and> signals w' s = sg'
      \<and> run_each run x (closures_of (m_slots sg) @ cs) w = Inr w')"
proof -
  from connect_list_fresh [OF ok _ conn] room
  have cl: "length ids = length (map User cs)" "sorted_wrt (<) ids"
    "m_slots sg' = m_slots sg @ zip ids (map User cs)" "sig_ok sg'"
    by simp_all
  have len: "length ids = length cs" using cl(1) by simp
  have tab: "slots_of s w = [] @ m_slots sg'" using here by simp
  have dist: "distinct (map fst ([] @ m_slots sg'))" using sig_ok_distinct [OF cl(4)] by simp
  from emit_loop_runs [where run = run and x = x and s = s and w = w and xs = "[]"
      and ys = "m_slots sg'" and n = n and tr = "tr @ [Emitted s x]", OF tab dist stable fuel]
  obtain w' where w': "emit n run s x (tr, w) = Inr (tr @ Emitted s x # calls s x (m_slots sg'), w')"
    "signals w' s = sg'" "run_each run x (closures_of (m_slots sg')) w = Inr w'"
    using here by auto
  have c: "calls s x (zip ids (map User cs)) = map (\<lambda>(i, c). Called s i (User c) x) (zip ids cs)"
    by (simp add: calls_def zip_map2 case_prod_beta)
  have r: "closures_of (m_slots sg') = closures_of (m_slots sg) @ cs"
    using cl(3) closures_of_zip_User [OF len] by simp
  have "emit n run s x (tr, w) =
        Inr (tr @ Emitted s x # calls s x (m_slots sg)
                @ map (\<lambda>(i, c). Called s i (User c) x) (zip ids cs), w')"
    using w'(1) cl(3) c by simp
  moreover have "run_each run x (closures_of (m_slots sg) @ cs) w = Inr w'"
    using w'(3) r by simp
  ultimately show ?thesis using len cl(2) w'(2) by blast
qed

theorem emit_calls_each_in_order_witness:
  "connect_list (map User [Print, Show 0]) Signal_init
     = ([1, 2], \<lparr>m_slots = [(1, User Print), (2, User (Show 0))], m_id = 2\<rparr>) \<and>
   (\<exists>w'. emit 2 run_closure (Free_signal 0) 7
      ([], store_signal (Free_signal 0)
             \<lparr>m_slots = [(1, User Print), (2, User (Show 0))], m_id = 2\<rparr> world0)
    = Inr ([Emitted (Free_signal 0) 7, Called (Free_signal 0) 1 (User Print) 7,
            Called (Free_signal 0) 2 (User (Show 0)) 7], w') \<and>
    client w' = [7, 0])"
proof -
  let ?sg = "\<lparr>m_slots = [(1, User Print), (2, User (Show 0))], m_id = 2\<rparr> :: closure Signal"
  let ?w = "store_signal (Free_signal 0) ?sg world0"
  have c: "connect_list (map User [Print, Show 0]) Signal_init = ([1, 2], ?sg)"
    by (simp add: connect_def Signal_init_def)
  have ok: "sig_ok (Signal_init :: closure Signal)"
    by (simp add: sig_ok_def map_ok_def Signal_init_def)
  have room: "unat (m_id (Signal_init :: closure Signal)) + length [Print, Show 0] < 2 ^ 64"
    by (simp add: Signal_init_def)
  have here: "signals ?w (Free_signal 0) = ?sg" by (simp add: store_signal_def)
  have stable: "\<forall>e \<in> set (m_slots ?sg). \<exists>cb. snd e = User cb \<and>
        (\<forall>w. \<exists>w'. run_closure cb 7 w = Inr w' \<and> signals w' (Free_signal 0) = signals w (Free_signal 0))"
    by simp
  have fuel: "length (m_slots ?sg) \<le> 2" by simp
  from emit_calls_each_in_order [where run = run_closure and x = 7 and tr = "[]" and s = "Free_signal 0",
      OF ok room c here stable fuel]
  obtain w' where e: "emit 2 run_closure (Free_signal 0) 7 ([], ?w) =
        Inr ([] @ Emitted (Free_signal 0) 7 # calls (Free_signal 0) 7 (m_slots (Signal_init :: closure Signal))
                @ map (\<lambda>(i, c). Called (Free_signal 0) i (User c) 7) (zip [1, 2] [Print, Show 0]), w')"
    and r: "run_each run_closure 7 (closures_of (m_slots (Signal_init :: closure Signal)) @ [Print, Show 0]) ?w
        = Inr w'"
    by blast
  from e have e': "emit 2 run_closure (Free_signal 0) 7 ([], ?w)
    = Inr ([Emitted (Free_signal 0) 7, Called (Free_signal 0) 1 (User Print) 7,
            Called (Free_signal 0) 2 (User (Show 0)) 7], w')"
    by (simp add: Signal_init_def calls_def del: emit.simps)
  from r have "client w' = [7, 0]"
    by (auto simp: Signal_init_def store_signal_def world0_def get_def)
  with c e' show ?thesis by blast
qed

lemma of_nat_not_one: "2 \<le> j \<Longrightarrow> j \<le> 2 ^ 64 \<Longrightarrow> (of_nat j :: size_t) \<noteq> 1"
proof (cases "j = 2 ^ 64")
  case True
  then show ?thesis by simp
next
  case False
  assume "2 \<le> j" "j \<le> 2 ^ 64"
  with False have "j < 2 ^ 64" by simp
  then have "unat (of_nat j :: size_t) = j" by (simp add: unat_of_nat)
  with \<open>2 \<le> j\<close> show ?thesis by auto
qed

lemma insert_erase_beside: "k \<noteq> 1 \<Longrightarrow> map_erase k (map_insert k v [(1, f)]) = [(1, f)]"
  by simp

lemma snd_run_ops_Connect:
  "snd (run_ops (Connect c # ops) sg) = snd (run_ops ops (snd (connect c sg)))"
  by (simp add: split_beta Let_def)

lemma connect_disconnect_keeps_first:
  "2 \<le> j \<Longrightarrow> j + n \<le> 2 ^ 64 + 1 \<Longrightarrow> m_slots sg = [(1, f)] \<Longrightarrow> m_id sg + 1 = of_nat j \<Longrightarrow>
   snd (run_ops (connect_disconnect n (of_nat j) c) sg)
     = \<lparr>m_slots = [(1, f)], m_id = of_nat (j + n) - 1\<rparr>"
proof (induction n arbitrary: j sg)
  case 0
  from "0.prems"(4) have "m_id sg = of_nat j - 1" by (simp add: algebra_simps)
  with "0.prems"(3) show ?case by (cases sg) simp
next
  case (Suc n)
  let ?sg1 = "snd (connect c sg)"
  let ?sg2 = "disconnect (of_nat j) ?sg1"
  have ne: "(of_nat j :: size_t) \<noteq> 1" using Suc.prems(1,2) by (intro of_nat_not_one) simp_all
  have "m_slots ?sg2 = map_erase (of_nat j) (map_insert (of_nat j) c [(1, f)])"
    using Suc.prems(3,4) by (simp add: connect_def disconnect_def Let_def)
  then have sg2a: "m_slots ?sg2 = [(1, f)]"
    by (simp only: insert_erase_beside [OF ne])
  have sg2b: "m_id ?sg2 + 1 = of_nat (Suc j)"
    using Suc.prems(4) by (simp add: connect_def disconnect_def Let_def)
  note sg2 = sg2a sg2b
  have "snd (run_ops (connect_disconnect (Suc n) (of_nat j) c) sg)
      = snd (run_ops (connect_disconnect n (of_nat (Suc j)) c) ?sg2)"
    by (simp add: snd_run_ops_Connect add.commute del: run_ops.simps(2))
  also have "\<dots> = \<lparr>m_slots = [(1, f)], m_id = of_nat (Suc j + n) - 1\<rparr>"
    by (rule Suc.IH [OF _ _ sg2]) (use Suc.prems(1,2) in simp_all)
  finally show ?case by simp
qed

text \<open>
  C6 as stated fails for a signal whose counter has wrapped. After \<^verbatim>\<open>connect\<close> and
  then \<open>2^64 - 1\<close> times \<^verbatim>\<open>connect\<close> and \<^verbatim>\<open>disconnect\<close> of the id just returned, the
  first closure is still under the id \<open>1\<close> and \<^verbatim>\<open>m_id\<close> is \<open>0\<close>. The next
  \<^verbatim>\<open>connect(c1)\<close> returns \<open>1\<close>, and \<^verbatim>\<open>insert\<close> leaves the entry that is there: \<open>c1\<close>
  is not in the map, and \<^verbatim>\<open>emit(7)\<close> calls the first closure only.
\<close>

theorem emit_after_wrap_counterexample:
  "snd (run_ops (Connect (User Print) # connect_disconnect (2 ^ 64 - 1) 2 (User Print)) Signal_init)
     = \<lparr>m_slots = [(1, User Print)], m_id = 0\<rparr> \<and>
   connect_list [User (Show 0)] \<lparr>m_slots = [(1, User Print)], m_id = 0\<rparr>
     = ([1], \<lparr>m_slots = [(1, User Print)], m_id = 1\<rparr>) \<and>
   emit 2 run_closure (Free_signal 0) 7
     ([], store_signal (Free_signal 0) \<lparr>m_slots = [(1, User Print)], m_id = 1\<rparr> world0)
     = Inr ([Emitted (Free_signal 0) 7, Called (Free_signal 0) 1 (User Print) 7],
            (store_signal (Free_signal 0) \<lparr>m_slots = [(1, User Print)], m_id = 1\<rparr> world0)
              \<lparr>client := [7]\<rparr>)"
proof -
  let ?sg1 = "\<lparr>m_slots = [(1, User Print)], m_id = 1\<rparr> :: closure Signal"
  have first: "snd (connect (User Print) (Signal_init :: closure Signal)) = ?sg1"
    by (simp add: connect_def Signal_init_def)
  have "snd (run_ops (connect_disconnect (2 ^ 64 - 1) (of_nat 2) (User Print)) ?sg1)
      = \<lparr>m_slots = [(1, User Print)], m_id = of_nat (2 + (2 ^ 64 - 1)) - 1\<rparr>"
    by (rule connect_disconnect_keeps_first) simp_all
  then have a: "snd (run_ops (Connect (User Print) # connect_disconnect (2 ^ 64 - 1) 2 (User Print))
        Signal_init) = \<lparr>m_slots = [(1, User Print)], m_id = 0\<rparr>"
    unfolding snd_run_ops_Connect first by simp
  have b: "connect_list [User (Show 0)] \<lparr>m_slots = [(1, User Print)], m_id = 0\<rparr>
     = ([1], ?sg1)"
    by (simp add: connect_def)
  have c: "emit 2 run_closure (Free_signal 0) 7
     ([], store_signal (Free_signal 0) ?sg1 world0)
     = Inr ([Emitted (Free_signal 0) 7, Called (Free_signal 0) 1 (User Print) 7],
            (store_signal (Free_signal 0) ?sg1 world0)\<lparr>client := [7]\<rparr>)"
    by (simp add: eval_nat_numeral store_signal_def world0_def)
  from a b c show ?thesis by blast
qed

section \<open>C7: the ids returned by connect\<close>

lemma run_ops_ascending:
  "unat (m_id sg) + connects ops < 2 ^ 64 \<Longrightarrow> run_ops ops sg = (ids, sg') \<Longrightarrow>
   sorted_wrt (<) ids \<and> (\<forall>i \<in> set ids. m_id sg < i) \<and>
   unat (m_id sg') = unat (m_id sg) + connects ops"
proof (induction ops sg arbitrary: ids rule: run_ops.induct)
  case (1 sg)
  then show ?case by auto
next
  case (2 c ops sg)
  let ?sg1 = "snd (connect c sg)"
  have one: "unat (m_id sg) + 1 < 2 ^ 64" using "2.prems"(1) by simp
  have u: "unat (m_id sg + 1) = unat (m_id sg) + 1" using one by (rule unat_succ)
  have lt: "m_id sg < m_id sg + 1" using u by (simp add: word_less_nat_alt)
  obtain ids' where rest: "run_ops ops ?sg1 = (ids', sg')" and ids: "ids = (m_id sg + 1) # ids'"
    using "2.prems"(2) connect_id [of c sg] by (auto split: prod.splits)
  have room: "unat (m_id ?sg1) + connects ops < 2 ^ 64"
    using "2.prems"(1) u by (simp add: connect_id)
  have ih: "sorted_wrt (<) ids' \<and> (\<forall>i \<in> set ids'. m_id ?sg1 < i) \<and>
      unat (m_id sg') = unat (m_id ?sg1) + connects ops"
    by (rule "2.IH" [OF _ _ room rest]) (simp_all add: prod_eq_iff)
  then have "\<forall>i \<in> set ids'. m_id sg + 1 < i" by (simp add: connect_id)
  moreover from this lt have "\<forall>i \<in> set ids'. m_id sg < i" by (auto intro: less_trans)
  ultimately show ?case using ih lt u by (simp add: ids connect_id)
next
  case (3 i ops sg)
  then show ?case by (simp add: disconnect_def)
next
  case (4 ops sg)
  then show ?case by (simp add: disconnect_all_def)
qed

text \<open>
  C7, as amended. Over any sequence of \<^verbatim>\<open>connect\<close>, \<^verbatim>\<open>disconnect\<close> and
  \<^verbatim>\<open>disconnect_all\<close> on a signal from its construction on, as long as \<^verbatim>\<open>connect\<close>
  has been called fewer than \<open>2^64\<close> times, each id returned by \<^verbatim>\<open>connect\<close> is strictly
  greater than every id returned before it; so no id is returned twice, whether its
  subscriber was removed or not.
\<close>

theorem connect_ids_ascend_until_wrap:
  "connects ops < 2 ^ 64 \<Longrightarrow>
   sorted_wrt (<) (fst (run_ops ops Signal_init)) \<and> distinct (fst (run_ops ops Signal_init))"
  using run_ops_ascending [of Signal_init ops "fst (run_ops ops Signal_init)" "snd (run_ops ops Signal_init)"]
  by (simp add: Signal_init_def strict_sorted_iff)

theorem connect_ids_ascend_until_wrap_witness:
  "connects [Connect (User Print), Disconnect 1, Connect (User Print), Disconnect_all,
             Connect (User Print)] < 2 ^ 64 \<and>
   fst (run_ops [Connect (User Print), Disconnect 1, Connect (User Print), Disconnect_all,
                 Connect (User Print)] Signal_init) = [1, 2, 3] \<and>
   sorted_wrt (<) (fst (run_ops [Connect (User Print), Disconnect 1, Connect (User Print),
                 Disconnect_all, Connect (User Print)] Signal_init)) \<and>
   distinct (fst (run_ops [Connect (User Print), Disconnect 1, Connect (User Print),
                 Disconnect_all, Connect (User Print)] Signal_init))"
proof -
  let ?ops = "[Connect (User Print), Disconnect 1, Connect (User Print), Disconnect_all,
               Connect (User Print)]"
  have few: "connects ?ops < 2 ^ 64" by simp
  have ids: "fst (run_ops ?ops Signal_init) = [1, 2, 3]"
    by (simp add: connect_def disconnect_def disconnect_all_def Signal_init_def)
  from connect_ids_ascend_until_wrap [OF few] few ids show ?thesis by blast
qed

lemma run_ops_replicate:
  "length (fst (run_ops (replicate n (Connect c)) sg)) = n \<and>
   (\<forall>j < n. fst (run_ops (replicate n (Connect c)) sg) ! j = m_id sg + of_nat (Suc j))"
proof (induction n arbitrary: sg)
  case 0
  then show ?case by simp
next
  case (Suc n)
  let ?sg1 = "snd (connect c sg)"
  have eq: "fst (run_ops (replicate (Suc n) (Connect c)) sg)
      = (m_id sg + 1) # fst (run_ops (replicate n (Connect c)) ?sg1)"
    using connect_id [of c sg] by (simp add: split_beta Let_def)
  show ?case
    unfolding eq using Suc.IH [of ?sg1]
    by (auto simp: connect_id nth_Cons' add.assoc)
qed

text \<open>
  C7 as stated fails: \<^verbatim>\<open>m_id\<close> is a \<^verbatim>\<open>std::size_t\<close> and \<^verbatim>\<open>++m_id\<close> wraps. Of
  \<open>2^64\<close> calls of \<^verbatim>\<open>connect\<close> on a new signal the first returns \<open>1\<close> and the last
  returns \<open>0\<close>.
\<close>

theorem connect_ids_wrap_counterexample:
  "fst (run_ops (replicate (2 ^ 64) (Connect (User Print))) Signal_init) ! 0 = 1 \<and>
   fst (run_ops (replicate (2 ^ 64) (Connect (User Print))) Signal_init) ! (2 ^ 64 - 1) = 0 \<and>
   \<not> sorted_wrt (<) (fst (run_ops (replicate (2 ^ 64) (Connect (User Print))) Signal_init))"
proof -
  let ?ids = "fst (run_ops (replicate (2 ^ 64) (Connect (User Print))) (Signal_init :: closure Signal))"
  note r = run_ops_replicate [of "2 ^ 64" "User Print" "Signal_init :: closure Signal"]
  have first: "?ids ! 0 = 1" using r by (simp add: Signal_init_def)
  have "?ids ! (2 ^ 64 - 1) = m_id (Signal_init :: closure Signal) + of_nat (Suc (2 ^ 64 - 1))"
    using r by simp
  then have last: "?ids ! (2 ^ 64 - 1) = 0" by (simp add: Signal_init_def)
  have "\<not> sorted_wrt (<) ?ids"
  proof
    assume "sorted_wrt (<) ?ids"
    then have "?ids ! 0 < ?ids ! (2 ^ 64 - 1)"
      by (rule sorted_wrt_nth_less) (use r in simp_all)
    with first last show False by simp
  qed
  with first last show ?thesis by blast
qed

section \<open>C8: disconnect\<close>

lemma disconnect_twice: "map_ok (m_slots sg) \<Longrightarrow> disconnect i (disconnect i sg) = disconnect i sg"
  by (simp add: disconnect_def map_erase_absent map_erase_gone)

text \<open>
  C8. \<^verbatim>\<open>disconnect(id)\<close> on a signal (whose map has its keys ascending, as every
  \<^verbatim>\<open>std::map\<close> has) removes the entry under \<open>id\<close> and no other, and leaves the counter
  alone; when no entry has that id the signal is unchanged; disconnecting the same id a
  second time changes nothing. An \<^verbatim>\<open>emit\<close> after the disconnect, with closures that leave
  this signal alone, calls the remaining entries and only them.
\<close>

theorem disconnect_removes_exactly:
  assumes ok: "map_ok (m_slots sg)"
  shows "m_slots (disconnect i sg) = filter (\<lambda>e. fst e \<noteq> i) (m_slots sg) \<and>
    m_id (disconnect i sg) = m_id sg \<and>
    (i \<notin> fst ` set (m_slots sg) \<longrightarrow> disconnect i sg = sg) \<and>
    disconnect i (disconnect i sg) = disconnect i sg \<and>
    (signals w s = disconnect i sg \<and>
     (\<forall>e \<in> set (m_slots (disconnect i sg)). \<exists>cb. snd e = User cb \<and>
        (\<forall>w. \<exists>w'. run cb x w = Inr w' \<and> signals w' s = signals w s)) \<and>
     length (m_slots sg) \<le> n \<longrightarrow>
     (\<exists>w'. emit n run s x (tr, w) =
        Inr (tr @ Emitted s x # calls s x (filter (\<lambda>e. fst e \<noteq> i) (m_slots sg)), w')))"
proof -
  have flt: "m_slots (disconnect i sg) = filter (\<lambda>e. fst e \<noteq> i) (m_slots sg)"
    using ok by (simp add: disconnect_def map_erase_filter map_ok_distinct)
  have absent: "i \<notin> fst ` set (m_slots sg) \<longrightarrow> disconnect i sg = sg"
    by (simp add: disconnect_def map_erase_absent)
  have later: "\<exists>w'. emit n run s x (tr, w) =
        Inr (tr @ Emitted s x # calls s x (filter (\<lambda>e. fst e \<noteq> i) (m_slots sg)), w')"
    if here: "signals w s = disconnect i sg"
      and stable: "\<forall>e \<in> set (m_slots (disconnect i sg)). \<exists>cb. snd e = User cb \<and>
        (\<forall>w. \<exists>w'. run cb x w = Inr w' \<and> signals w' s = signals w s)"
      and fuel: "length (m_slots sg) \<le> n"
  proof -
    have mok: "map_ok (m_slots (signals w s))"
      using ok here by (simp add: disconnect_def map_ok_erase)
    have len: "length (m_slots (signals w s)) \<le> n"
      using fuel here flt by (simp add: le_trans [OF length_filter_le])
    have "\<exists>w'. signals w' s = signals w s \<and>
      emit n run s x (tr, w) = Inr (tr @ Emitted s x # calls s x (m_slots (signals w s)), w')"
      by (rule emit_stable [where R = "\<lambda>w w'. signals w' s = signals w s"])
         (use mok stable len here in simp_all)
    then show ?thesis using here flt by auto
  qed
  have mid: "m_id (disconnect i sg) = m_id sg" by (simp add: disconnect_def)
  show ?thesis using flt mid absent later disconnect_twice [OF ok] by blast
qed

theorem disconnect_removes_exactly_witness:
  "map_ok (m_slots \<lparr>m_slots = [(1, User Print), (2, User Print)], m_id = 2\<rparr>) \<and>
   m_slots (disconnect 1 \<lparr>m_slots = [(1, User Print), (2, User Print)], m_id = 2\<rparr>)
     = [(2, User Print)] \<and>
   disconnect 1 (disconnect 1 \<lparr>m_slots = [(1, User Print), (2, User Print)], m_id = 2\<rparr>)
     = disconnect 1 \<lparr>m_slots = [(1, User Print), (2, User Print)], m_id = 2\<rparr> \<and>
   (\<exists>w'. emit 2 run_closure (Free_signal 0) 7
       ([], store_signal (Free_signal 0)
              (disconnect 1 \<lparr>m_slots = [(1, User Print), (2, User Print)], m_id = 2\<rparr>) world0)
     = Inr ([Emitted (Free_signal 0) 7, Called (Free_signal 0) 2 (User Print) 7], w'))"
proof -
  let ?sg = "\<lparr>m_slots = [(1, User Print), (2, User Print)], m_id = 2\<rparr> :: closure Signal"
  let ?s = "Free_signal 0"
  let ?w = "store_signal ?s (disconnect 1 ?sg) world0"
  have ok: "map_ok (m_slots ?sg)" by (simp add: map_ok_def)
  have here: "signals ?w ?s = disconnect 1 ?sg" by (simp add: store_signal_def)
  have stable: "\<forall>e \<in> set (m_slots (disconnect 1 ?sg)). \<exists>cb. snd e = User cb \<and>
        (\<forall>w. \<exists>w'. run_closure cb 7 w = Inr w' \<and> signals w' ?s = signals w ?s)"
    by (simp add: disconnect_def)
  have fuel: "length (m_slots ?sg) \<le> 2" by simp
  note t = disconnect_removes_exactly [where run = run_closure and x = 7 and tr = "[]"
      and s = ?s and w = ?w and n = 2 and i = 1, OF ok]
  from t have a: "m_slots (disconnect 1 ?sg) = [(2, User Print)]" by simp
  from t have b: "disconnect 1 (disconnect 1 ?sg) = disconnect 1 ?sg" by blast
  from t here stable fuel
  have "\<exists>w'. emit 2 run_closure ?s 7 ([], ?w) =
        Inr ([] @ Emitted ?s 7 # calls ?s 7 (filter (\<lambda>e. fst e \<noteq> 1) (m_slots ?sg)), w')"
    by blast
  then have c: "\<exists>w'. emit 2 run_closure ?s 7 ([], ?w) =
        Inr ([Emitted ?s 7, Called ?s 2 (User Print) 7], w')"
    by (simp add: calls_def)
  from ok a b c show ?thesis by blast
qed

section \<open>C9: a binding from connect_from to disconnect\<close>



section \<open>C10: copy construction and copy assignment\<close>

text \<open>
  C10. The copy constructor gives the new property \<open>q\<close> the value of \<open>p\<close>, no connection
  (whatever the connection of \<open>p\<close>) and two signals without subscribers, and leaves \<open>p\<close> as
  it was. Copy assignment of \<open>p\<close> to \<open>q\<close> is \<^verbatim>\<open>q.set(p.m_value)\<close>: when the values are
  equal nothing happens and nothing is notified; when they differ (the subscribers of \<open>q\<close>
  being observing closures) both dispatchers of \<open>q\<close> fire, its \<^verbatim>\<open>prior_to_change\<close> with
  the old value and then its \<^verbatim>\<open>on_change\<close> with the value of \<open>p\<close>, and afterwards every
  signal has the subscribers it had and no member of any property has changed but the
  value of \<open>q\<close>: neither the connection of \<open>p\<close> nor its subscribers have moved to \<open>q\<close>.
\<close>

theorem copy_takes_the_value_only:
  fixes w :: "('a, 'cb, 'u) world"
  shows "get q (Property_copy q p w) = get p w \<and>
    m_connection (properties (Property_copy q p w) q) = None \<and>
    slots_of (Prior_to_change q) (Property_copy q p w) = [] \<and>
    slots_of (On_change q) (Property_copy q p w) = [] \<and>
    (q \<noteq> p \<longrightarrow> properties (Property_copy q p w) p = properties w p \<and>
       signals (Property_copy q p w) (Prior_to_change p) = signals w (Prior_to_change p) \<and>
       signals (Property_copy q p w) (On_change p) = signals w (On_change p)) \<and>
    (get p w = get q w \<longrightarrow> Property_assign n run q p (tr, w) = Inr (tr, w)) \<and>
    (get p w \<noteq> get q w \<and>
     quiet run (slots_of (Prior_to_change q) w) \<and> map_ok (slots_of (Prior_to_change q) w) \<and>
     quiet run (slots_of (On_change q) w) \<and> map_ok (slots_of (On_change q) w) \<and>
     length (slots_of (Prior_to_change q) w) \<le> n \<and> length (slots_of (On_change q) w) \<le> n \<longrightarrow>
     (\<exists>w'. Property_assign n run q p (tr, w) =
         Inr (tr @ set_events q (get q w) (get p w)
                     (slots_of (Prior_to_change q) w) (slots_of (On_change q) w), w') \<and>
       signals w' = signals w \<and>
       properties w' = (properties w)(q := (properties w q)\<lparr>m_value := get p w\<rparr>)))"
proof -
  have copy: "get q (Property_copy q p w) = get p w \<and>
    m_connection (properties (Property_copy q p w) q) = None \<and>
    slots_of (Prior_to_change q) (Property_copy q p w) = [] \<and>
    slots_of (On_change q) (Property_copy q p w) = [] \<and>
    (q \<noteq> p \<longrightarrow> properties (Property_copy q p w) p = properties w p \<and>
       signals (Property_copy q p w) (Prior_to_change p) = signals w (Prior_to_change p) \<and>
       signals (Property_copy q p w) (On_change p) = signals w (On_change p))"
    by (simp add: Property_copy_def Property_new_def get_def Signal_init_def)
  have same: "get p w = get q w \<longrightarrow> Property_assign n run q p (tr, w) = Inr (tr, w)"
    by (simp add: Property_assign_def get_def)
  have differ: "\<exists>w'. Property_assign n run q p (tr, w) =
         Inr (tr @ set_events q (get q w) (get p w)
                     (slots_of (Prior_to_change q) w) (slots_of (On_change q) w), w') \<and>
       signals w' = signals w \<and>
       properties w' = (properties w)(q := (properties w q)\<lparr>m_value := get p w\<rparr>)"
    if "get p w \<noteq> get q w"
      and "quiet run (slots_of (Prior_to_change q) w)" "map_ok (slots_of (Prior_to_change q) w)"
      and "quiet run (slots_of (On_change q) w)" "map_ok (slots_of (On_change q) w)"
      and "length (slots_of (Prior_to_change q) w) \<le> n" "length (slots_of (On_change q) w) \<le> n"
    using set_value_quiet [OF that(2) that(4) that(3) that(5) that(6) that(7), of "Value_of p" tr] that(1)
    by (simp add: Property_assign_def get_def del: set_value.simps)
  from copy same differ show ?thesis by blast
qed

theorem copy_takes_the_value_only_witness:
  "get 1 (Property_copy 1 0 (store_value 0 5 world0)) = 5 \<and>
   Property_assign 0 run_closure 1 0 ([], world0) = Inr ([], world0) \<and>
   (\<exists>w'. Property_assign 1 run_closure 1 0
       ([], store_signal (On_change 1) \<lparr>m_slots = [(1, User Print)], m_id = 1\<rparr>
              (store_value 0 5 world0))
      = Inr ([Emitted (Prior_to_change 1) 0, Emitted (On_change 1) 5,
              Called (On_change 1) 1 (User Print) 5], w') \<and>
     get 1 w' = 5 \<and> m_connection (properties w' 1) = None)"
proof -
  let ?sg = "\<lparr>m_slots = [(1, User Print)], m_id = 1\<rparr> :: closure Signal"
  let ?w = "store_signal (On_change 1) ?sg (store_value 0 5 world0)"
  note t1 = copy_takes_the_value_only [where q = 1 and p = 0 and w = "store_value 0 5 world0"
      and run = run_closure and n = 0 and tr = "[]"]
  note t2 = copy_takes_the_value_only [where q = 1 and p = 0 and w = world0
      and run = run_closure and n = 0 and tr = "[]"]
  note t3 = copy_takes_the_value_only [where q = 1 and p = 0 and w = ?w
      and run = run_closure and n = 1 and tr = "[]"]
  have a: "get 1 (Property_copy 1 0 (store_value 0 5 world0)) = 5"
    using t1 by (simp add: get_def store_value_def world0_def)
  have "get 0 world0 = get 1 world0" by (simp add: get_def world0_def)
  with t2 have b: "Property_assign 0 run_closure 1 0 ([], world0) = Inr ([], world0)" by blast
  have pre: "get 0 ?w \<noteq> get 1 ?w \<and>
     quiet run_closure (slots_of (Prior_to_change 1) ?w) \<and> map_ok (slots_of (Prior_to_change 1) ?w) \<and>
     quiet run_closure (slots_of (On_change 1) ?w) \<and> map_ok (slots_of (On_change 1) ?w) \<and>
     length (slots_of (Prior_to_change 1) ?w) \<le> 1 \<and> length (slots_of (On_change 1) ?w) \<le> 1"
    by (simp add: get_def store_signal_def store_value_def world0_def Signal_init_def
          quiet_def map_ok_def observes_Print)
  with t3 obtain w' where r: "Property_assign 1 run_closure 1 0 ([], ?w) =
         Inr ([] @ set_events 1 (get 1 ?w) (get 0 ?w)
                     (slots_of (Prior_to_change 1) ?w) (slots_of (On_change 1) ?w), w')"
      "properties w' = (properties ?w)(1 := (properties ?w 1)\<lparr>m_value := get 0 ?w\<rparr>)"
    by blast
  have c1: "Property_assign 1 run_closure 1 0 ([], ?w)
      = Inr ([Emitted (Prior_to_change 1) 0, Emitted (On_change 1) 5,
              Called (On_change 1) 1 (User Print) 5], w')"
    using r(1) by (simp add: set_events_def calls_def get_def store_signal_def store_value_def
          world0_def Signal_init_def)
  have c2: "get 1 w' = 5 \<and> m_connection (properties w' 1) = None"
    using r(2) by (simp add: get_def store_signal_def store_value_def world0_def)
  from a b c1 c2 show ?thesis by blast
qed

end
